theory Spec2Isabelle
  imports Main "HOL-Library.Sublist"
begin

chapter \<open>The renderer of the editor: \<open>convertMarkdown\<close> and its helpers\<close>

section \<open>JavaScript strings\<close>

text \<open>
  A JavaScript string is modelled as a \<^typ>\<open>string\<close>; one \<^typ>\<open>char\<close> stands for one
  code unit, so the model covers the documents whose code units are below 256.
  \<open>String.prototype.trim\<close>, \<open>trimEnd\<close> and the regular expression class \<open>\s\<close> share one
  set of white space: the code units 9 to 13, 32 and 160 are its members below 256.
\<close>

definition isSpace :: "char \<Rightarrow> bool" where
  "isSpace c = (c = CHR 0x09 \<or> c = CHR 0x0A \<or> c = CHR 0x0B \<or> c = CHR 0x0C \<or>
     c = CHR 0x0D \<or> c = CHR 0x20 \<or> c = CHR 0xA0)"

definition isDigit :: "char \<Rightarrow> bool" where
  \<comment> \<open>the class \<open>\d\<close>: the ten ASCII digits\<close>
  "isDigit c = (48 \<le> (of_char c :: nat) \<and> (of_char c :: nat) \<le> 57)"

definition isLineTerminator :: "char \<Rightarrow> bool" where
  \<comment> \<open>what \<open>.\<close> refuses to match: line feed and carriage return are the ones below 256\<close>
  "isLineTerminator c = (c = CHR 0x0A \<or> c = CHR 0x0D)"

definition trimStart :: "string \<Rightarrow> string" where
  "trimStart s = dropWhile isSpace s"

definition trimEnd :: "string \<Rightarrow> string" where
  "trimEnd s = rev (dropWhile isSpace (rev s))"

definition trim :: "string \<Rightarrow> string" where
  "trim s = trimEnd (trimStart s)"

definition startsWith :: "string \<Rightarrow> string \<Rightarrow> bool" where
  "startsWith s p = (take (length p) s = p)"

definition endsWith :: "string \<Rightarrow> string \<Rightarrow> bool" where
  "endsWith s p = (take (length p) (rev s) = rev p)"

definition strIncludes :: "string \<Rightarrow> string \<Rightarrow> bool" where
  \<comment> \<open>\<open>s.includes(t)\<close>: \<open>t\<close> occurs in \<open>s\<close> as a contiguous run\<close>
  "strIncludes s t = list_ex (\<lambda>i. take (length t) (drop i s) = t) [0 ..< Suc (length s)]"

fun joinWith :: "string \<Rightarrow> string list \<Rightarrow> string" where
  "joinWith sep [] = []"
| "joinWith sep [x] = x"
| "joinWith sep (x # y # ys) = x @ sep @ joinWith sep (y # ys)"

primrec splitNl :: "string \<Rightarrow> string list" where
  \<comment> \<open>\<open>s.split('\n')\<close>: never the empty list, the empty string gives one empty line\<close>
  "splitNl [] = [[]]"
| "splitNl (c # cs) =
     (if c = CHR 0x0A then [] # splitNl cs
      else (case splitNl cs of l # ls \<Rightarrow> (c # l) # ls | [] \<Rightarrow> [[c]]))"

fun normalizeNewlines :: "string \<Rightarrow> string" where
  \<comment> \<open>\<open>raw.replace(/\r\n?/g, '\n')\<close>\<close>
  "normalizeNewlines [] = []"
| "normalizeNewlines (c # cs) =
     (if c = CHR 0x0D then CHR 0x0A # normalizeNewlines (if take 1 cs = [CHR 0x0A] then drop 1 cs else cs)
      else c # normalizeNewlines cs)"

definition digitChar :: "nat \<Rightarrow> char" where
  "digitChar d = char_of (48 + d)"

fun showNat :: "nat \<Rightarrow> string" where
  \<comment> \<open>a number inside a template literal: its decimal digits\<close>
  "showNat n = (if n < 10 then [digitChar n] else showNat (n div 10) @ [digitChar (n mod 10)])"

declare showNat.simps [simp del]

section \<open>escapeHtml\<close>

definition replaceChar :: "char \<Rightarrow> string \<Rightarrow> string \<Rightarrow> string" where
  \<comment> \<open>\<open>value.replace(/c/g, rep)\<close> for a one-character pattern\<close>
  "replaceChar c rep s = concat (map (\<lambda>x. if x = c then rep else [x]) s)"

definition escapeHtml :: "string \<Rightarrow> string" where
  \<open>escapeHtml v =
     replaceChar (CHR 0x27) ''&#39;''
       (replaceChar (CHR 0x22) ''&quot;''
         (replaceChar CHR ''>'' ''&gt;''
           (replaceChar CHR ''<'' ''&lt;''
             (replaceChar CHR ''&'' ''&amp;'' v))))\<close>

section \<open>The math rendering bridge\<close>

text \<open>
  \<open>katex.renderToString\<close> is a library outside the repository. It is a parameter of the
  model: given the trimmed expression and the display-mode flag it returns the HTML, or it
  throws. The other options of the call are constants
  (\<open>throwOnError: false\<close>, \<open>strict: 'ignore'\<close>, \<open>output: 'html'\<close>).
\<close>

datatype error = KatexError string

type_synonym katex = "string \<Rightarrow> bool \<Rightarrow> error + string"

definition try_catch :: "error + 'a \<Rightarrow> (error \<Rightarrow> 'a) \<Rightarrow> 'a" where
  "try_catch body handler = (case body of Inr v \<Rightarrow> v | Inl e \<Rightarrow> handler e)"

definition mathError :: "string \<Rightarrow> string" where
  \<open>mathError trimmed = ''<span class="math-error">'' @ escapeHtml trimmed @ ''</span>''\<close>

definition renderMath :: "katex \<Rightarrow> string \<Rightarrow> bool \<Rightarrow> string" where
  \<comment> \<open>the \<open>console.warn\<close> of the handler writes a log line and is left out\<close>
  "renderMath k expression displayMode =
     (let trimmed = trim expression in
      if trimmed = [] then []
      else try_catch (k trimmed displayMode) (\<lambda>error. mathError trimmed))"

section \<open>replaceInlineMath\<close>

fun inlineMathLoop :: "katex \<Rightarrow> string \<Rightarrow> string \<Rightarrow> string \<Rightarrow> bool \<Rightarrow> string" where
  \<comment> \<open>the \<open>for\<close> loop over the code units still to read, with \<open>result\<close>, \<open>buffer\<close> and \<open>inMath\<close>\<close>
  "inlineMathLoop k [] result buffer inMath =
     (if inMath then result @ ''$'' @ buffer else result)"
| "inlineMathLoop k (c # cs) result buffer inMath =
     (if c = CHR 0x5C \<and> take 1 cs = ''$'' then
        inlineMathLoop k (drop 1 cs) (result @ ''$'') buffer inMath
      else if c = CHR ''$'' then
        (if inMath then
           (if trim buffer = [] then inlineMathLoop k cs (result @ ''$'' @ buffer @ ''$'') [] False
            else inlineMathLoop k cs (result @ renderMath k buffer False) [] False)
         else inlineMathLoop k cs result [] True)
      else if inMath then inlineMathLoop k cs result (buffer @ [c]) inMath
      else inlineMathLoop k cs (result @ [c]) buffer inMath)"

definition replaceInlineMath :: "katex \<Rightarrow> string \<Rightarrow> string" where
  "replaceInlineMath k text = inlineMathLoop k text [] [] False"

section \<open>Global regular-expression replacement\<close>

text \<open>
  A pattern is modelled by its matcher at one position: given the code unit before the
  position (for the lookbehind) and the text from the position on, it returns the captured
  groups and the length of the match. All eight patterns of \<open>parseInline\<close> match at least
  one code unit. \<open>jsReplace\<close> is \<open>String.prototype.replace\<close> with a \<open>g\<close> pattern: it tries
  the positions from left to right, puts the expanded template in place of a match and
  goes on behind it.
\<close>

type_synonym regex = "char option \<Rightarrow> string \<Rightarrow> (string list \<times> nat) option"

fun jsReplace :: "regex \<Rightarrow> (string list \<Rightarrow> string) \<Rightarrow> char option \<Rightarrow> string \<Rightarrow> string" where
  "jsReplace re tmpl prev [] = []"
| "jsReplace re tmpl prev (c # cs) =
     (case re prev (c # cs) of
        Some (groups, n) \<Rightarrow>
          tmpl groups @ jsReplace re tmpl (Some ((c # cs) ! (n - 1))) (drop (n - 1) cs)
      | None \<Rightarrow> c # jsReplace re tmpl (Some c) cs)"

definition reDelim :: "char \<Rightarrow> nat \<Rightarrow> bool \<Rightarrow> regex" where
  \<comment> \<open>\<open>d{n}([^d]+)d{n}\<close>, after \<open>(?<!d)\<close> when \<open>lookbehind\<close> is set\<close>
  "reDelim d n lookbehind prev s =
     (if lookbehind \<and> prev = Some d then None
      else if startsWith s (replicate n d) then
        (let body = takeWhile (\<lambda>c. c \<noteq> d) (drop n s);
             rest = drop (n + length body) s
         in if body \<noteq> [] \<and> startsWith rest (replicate n d)
            then Some ([body], n + length body + n) else None)
      else None)"

definition reBracketParen :: "string \<Rightarrow> bool \<Rightarrow> regex" where
  \<comment> \<open>\<open>lead\[([^\]]*)\]\(([^)]+)\)\<close>; the first group is \<open>[^\]]+\<close> when \<open>nonEmpty\<close> is set\<close>
  "reBracketParen lead nonEmpty prev s =
     (if startsWith s (lead @ ''['') then
        (let text = takeWhile (\<lambda>c. c \<noteq> CHR '']'') (drop (length lead + 1) s);
             r1 = drop (length lead + 1 + length text) s
         in if (nonEmpty \<and> text = []) \<or> \<not> startsWith r1 '']('' then None
            else
              (let url = takeWhile (\<lambda>c. c \<noteq> CHR '')'') (drop 2 r1);
                   r2 = drop (2 + length url) r1
               in if url \<noteq> [] \<and> startsWith r2 '')''
                  then Some ([text, url], length lead + 1 + length text + 2 + length url + 1)
                  else None))
      else None)"

definition reImage :: regex where
  \<comment> \<open>\<open>/\!\[([^\]]*)]\(([^)]+)\)/g\<close>\<close>
  "reImage = reBracketParen ''!'' False"

definition reLink :: regex where
  \<comment> \<open>\<open>/\[([^\]]+)\]\(([^)]+)\)/g\<close>\<close>
  "reLink = reBracketParen [] True"

definition tmplImage :: "string list \<Rightarrow> string" where
  \<open>tmplImage g = ''<img alt="'' @ g ! 0 @ ''" src="'' @ g ! 1 @ ''" />''\<close>

definition tmplLink :: "string list \<Rightarrow> string" where
  \<open>tmplLink g = ''<a href="'' @ g ! 1 @ ''" target="_blank" rel="noreferrer">'' @ g ! 0 @ ''</a>''\<close>

definition tmplTag :: "string \<Rightarrow> string list \<Rightarrow> string" where
  \<comment> \<open>\<open>'<tag>$1</tag>'\<close>\<close>
  "tmplTag tag g = ''<'' @ tag @ ''>'' @ g ! 0 @ ''</'' @ tag @ ''>''"

section \<open>parseInline\<close>

definition inlineChain :: "string \<Rightarrow> string" where
  \<comment> \<open>the eight \<open>.replace\<close> calls, in the order of the source\<close>
  "inlineChain withMath =
     jsReplace (reDelim (CHR 0x60) 1 False) (tmplTag ''code'') None
       (jsReplace (reDelim CHR ''~'' 2 False) (tmplTag ''del'') None
         (jsReplace (reDelim CHR ''_'' 1 False) (tmplTag ''em'') None
           (jsReplace (reDelim CHR ''*'' 1 True) (tmplTag ''em'') None
             (jsReplace (reDelim CHR ''_'' 2 False) (tmplTag ''strong'') None
               (jsReplace (reDelim CHR ''*'' 2 False) (tmplTag ''strong'') None
                 (jsReplace reLink tmplLink None
                   (jsReplace reImage tmplImage None withMath)))))))"

definition parseInline :: "katex \<Rightarrow> string \<Rightarrow> string" where
  "parseInline k v =
     (let escaped = escapeHtml v;
          withMath = replaceInlineMath k escaped
      in inlineChain withMath)"

section \<open>Line patterns of the block scanner\<close>

fun replaceFirstAtEnd :: "string \<Rightarrow> string \<Rightarrow> string" where
  \<comment> \<open>\<open>s.replace(/lit\s*$/, '')\<close>: the leftmost place from where \<open>lit\<close> and then only
     white space reach the end of the string; the string is cut there\<close>
  "replaceFirstAtEnd lit [] = []"
| "replaceFirstAtEnd lit (c # cs) =
     (if startsWith (c # cs) lit \<and> list_all isSpace (drop (length lit) (c # cs)) then []
      else c # replaceFirstAtEnd lit cs)"

definition slice2 :: "string \<Rightarrow> string" where
  \<comment> \<open>\<open>s.slice(2, -2)\<close>\<close>
  "slice2 s = take (length s - 4) (drop 2 s)"

definition headingMatch :: "string \<Rightarrow> (nat \<times> string) option" where
  \<comment> \<open>\<open>trimmed.match(/^(#{1,6})\s+(.*)$/)\<close>: the length of group 1 and group 2\<close>
  "headingMatch t =
     (let hashes = takeWhile (\<lambda>c. c = CHR ''#'') t;
          after = drop (length hashes) t;
          text = dropWhile isSpace after
      in if 1 \<le> length hashes \<and> length hashes \<le> 6 \<and> takeWhile isSpace after \<noteq> []
            \<and> list_all (\<lambda>c. \<not> isLineTerminator c) text
         then Some (length hashes, text) else None)"

definition isThematicBreak :: "string \<Rightarrow> bool" where
  \<comment> \<open>\<open>/^(-{3,}|_{3,}|\*{3,})$/.test(trimmed)\<close>\<close>
  "isThematicBreak t =
     (3 \<le> length t \<and>
      (t = replicate (length t) CHR ''-'' \<or> t = replicate (length t) CHR ''_'' \<or>
       t = replicate (length t) CHR ''*''))"

definition isQuote :: "string \<Rightarrow> bool" where
  \<comment> \<open>\<open>/^>\s?/.test(trimmed)\<close>\<close>
  "isQuote t = startsWith t ''>''"

definition quoteContent :: "string \<Rightarrow> string" where
  \<comment> \<open>\<open>trimmed.replace(/^>\s?/, '')\<close>\<close>
  "quoteContent t =
     (if isQuote t then
        (let r = drop 1 t in if r \<noteq> [] \<and> isSpace (hd r) then drop 1 r else r)
      else t)"

definition orderedMatch :: "string \<Rightarrow> string option" where
  \<comment> \<open>\<open>/^\d+\.\s+/\<close>: when it matches, the text behind the match\<close>
  "orderedMatch t =
     (let digits = takeWhile isDigit t;
          r = drop (length digits) t
      in if digits \<noteq> [] \<and> startsWith r ''.'' \<and> takeWhile isSpace (drop 1 r) \<noteq> []
         then Some (dropWhile isSpace (drop 1 r)) else None)"

definition bulletMatch :: "string \<Rightarrow> string option" where
  \<comment> \<open>\<open>/^[-*+]\s+/\<close>: when it matches, the text behind the match\<close>
  "bulletMatch t =
     (if (startsWith t ''-'' \<or> startsWith t ''*'' \<or> startsWith t ''+'')
         \<and> takeWhile isSpace (drop 1 t) \<noteq> []
      then Some (dropWhile isSpace (drop 1 t)) else None)"

section \<open>convertMarkdown\<close>

record scan =
  outputs :: "string list"
  inBullet :: bool
  inOrdered :: bool
  inBlockquote :: bool
  inCode :: bool
  inMathBlock :: bool
  codeLanguage :: string
  codeBuffer :: "string list"
  mathBuffer :: "string list"

definition initial :: scan where
  "initial = \<lparr>outputs = [], inBullet = False, inOrdered = False, inBlockquote = False,
     inCode = False, inMathBlock = False, codeLanguage = [], codeBuffer = [], mathBuffer = []\<rparr>"

definition push :: "string \<Rightarrow> scan \<Rightarrow> scan" where
  \<comment> \<open>\<open>output.push(fragment)\<close>\<close>
  "push fragment st = st\<lparr>outputs := outputs st @ [fragment]\<rparr>"

definition closeLists :: "scan \<Rightarrow> scan" where
  "closeLists st =
     (let st1 = (if inBullet st then (push ''</ul>'' st)\<lparr>inBullet := False\<rparr> else st)
      in if inOrdered st1 then (push ''</ol>'' st1)\<lparr>inOrdered := False\<rparr> else st1)"

definition closeBlockquote :: "scan \<Rightarrow> scan" where
  "closeBlockquote st =
     (if inBlockquote st then (push ''</blockquote>'' st)\<lparr>inBlockquote := False\<rparr> else st)"

definition codeFragment :: "string \<Rightarrow> string list \<Rightarrow> string" where
  \<open>codeFragment language buffer =
     (let codeHtml = escapeHtml (joinWith ''\<newline>'' buffer);
          className = (if language \<noteq> [] then '' class="language-'' @ language @ [CHR 0x22] else [])
      in ''<pre><code'' @ className @ ''>'' @ codeHtml @ ''</code></pre>'')\<close>

definition flushCodeBlock :: "scan \<Rightarrow> scan" where
  "flushCodeBlock st =
     (if \<not> inCode st then st
      else (push (codeFragment (codeLanguage st) (codeBuffer st)) st)
             \<lparr>inCode := False, codeLanguage := [], codeBuffer := []\<rparr>)"

definition flushMathBlock :: "katex \<Rightarrow> scan \<Rightarrow> scan" where
  "flushMathBlock k st =
     (if \<not> inMathBlock st then st
      else
        (let expression = trim (joinWith ''\<newline>'' (mathBuffer st));
             st1 = (if expression \<noteq> [] then push (renderMath k expression True) st else st)
         in st1\<lparr>inMathBlock := False, mathBuffer := []\<rparr>))"

definition fenceLine :: "scan \<Rightarrow> katex \<Rightarrow> string \<Rightarrow> scan" where
  \<comment> \<open>the branch \<open>trimmed.startsWith('```')\<close>\<close>
  "fenceLine st k trimmed =
     (if inCode st then flushCodeBlock st
      else (flushMathBlock k (closeBlockquote (closeLists st)))
             \<lparr>inCode := True, codeLanguage := trim (drop 3 trimmed)\<rparr>)"

definition mathFenceLine :: "scan \<Rightarrow> katex \<Rightarrow> string \<Rightarrow> scan" where
  \<comment> \<open>the branch \<open>trimmed.startsWith('$$')\<close>\<close>
  "mathFenceLine st k trimmed =
     (let st1 = flushCodeBlock (closeBlockquote (closeLists st)) in
      if inMathBlock st1 then
        (let withoutStart = trim (replaceFirstAtEnd ''$'' (drop 2 trimmed));
             st2 = (if withoutStart \<noteq> [] then st1\<lparr>mathBuffer := mathBuffer st1 @ [withoutStart]\<rparr>
                    else st1)
         in if trimmed = ''$$'' \<or> endsWith trimmed ''$$'' then flushMathBlock k st2 else st2)
      else if trimmed = ''$$'' then st1\<lparr>inMathBlock := True, mathBuffer := []\<rparr>
      else if endsWith trimmed ''$$'' then
        (let expression = trim (slice2 trimmed)
         in if expression \<noteq> [] then push (renderMath k expression True) st1 else st1)
      else
        (let initial = trim (drop 2 trimmed)
         in st1\<lparr>inMathBlock := True, mathBuffer := (if initial \<noteq> [] then [initial] else [])\<rparr>))"

definition mathContentLine :: "scan \<Rightarrow> katex \<Rightarrow> string \<Rightarrow> string \<Rightarrow> scan" where
  \<comment> \<open>the branch \<open>inMathBlock\<close> for a line that does not start with \<open>$$\<close>\<close>
  "mathContentLine st k line trimmed =
     (if endsWith trimmed ''$$'' then
        (let withoutEnd = trimEnd (replaceFirstAtEnd ''$$'' line);
             st1 = (if trim withoutEnd \<noteq> [] then st\<lparr>mathBuffer := mathBuffer st @ [trimEnd withoutEnd]\<rparr>
                    else st)
         in flushMathBlock k st1)
      else st\<lparr>mathBuffer := mathBuffer st @ [line]\<rparr>)"

definition headingFragment :: "katex \<Rightarrow> nat \<Rightarrow> string \<Rightarrow> string" where
  "headingFragment k level text =
     ''<h'' @ showNat level @ ''>'' @ parseInline k text @ ''</h'' @ showNat level @ ''>''"

definition blockLine :: "scan \<Rightarrow> katex \<Rightarrow> string \<Rightarrow> scan" where
  \<comment> \<open>the rest of the callback: blank line, heading, rule, quote, list items, paragraph\<close>
  "blockLine st k trimmed =
     (if trimmed = [] then flushMathBlock k (flushCodeBlock (closeBlockquote (closeLists st)))
      else
        (case headingMatch trimmed of
           Some (level, text) \<Rightarrow>
             push (headingFragment k level text) (closeBlockquote (closeLists st))
         | None \<Rightarrow>
             if isThematicBreak trimmed then push ''<hr />'' (closeBlockquote (closeLists st))
             else if isQuote trimmed then
               (let st1 = closeLists st;
                    st2 = (if \<not> inBlockquote st1 then (push ''<blockquote>'' st1)\<lparr>inBlockquote := True\<rparr>
                           else st1)
                in push (''<p>'' @ parseInline k (quoteContent trimmed) @ ''</p>'') st2)
             else
               (case orderedMatch trimmed of
                  Some content \<Rightarrow>
                    (let st1 = (if \<not> inOrdered st
                                then (push ''<ol>'' (closeBlockquote (closeLists st)))\<lparr>inOrdered := True\<rparr>
                                else st)
                     in push (''<li>'' @ parseInline k content @ ''</li>'') st1)
                | None \<Rightarrow>
                    (case bulletMatch trimmed of
                       Some content \<Rightarrow>
                         (let st1 = (if \<not> inBullet st
                                     then (push ''<ul>'' (closeBlockquote (closeLists st)))\<lparr>inBullet := True\<rparr>
                                     else st)
                          in push (''<li>'' @ parseInline k content @ ''</li>'') st1)
                     | None \<Rightarrow>
                         push (''<p>'' @ parseInline k trimmed @ ''</p>'')
                           (closeBlockquote (closeLists st))))))"

definition processLine :: "katex \<Rightarrow> scan \<Rightarrow> string \<Rightarrow> scan" where
  \<comment> \<open>the callback of \<open>lines.forEach\<close>\<close>
  "processLine k st line =
     (let trimmed = trim line in
      if startsWith trimmed ''```'' then fenceLine st k trimmed
      else if inCode st then st\<lparr>codeBuffer := codeBuffer st @ [line]\<rparr>
      else if startsWith trimmed ''$$'' then mathFenceLine st k trimmed
      else if inMathBlock st then mathContentLine st k line trimmed
      else blockLine st k trimmed)"

definition finish :: "katex \<Rightarrow> scan \<Rightarrow> scan" where
  \<comment> \<open>the four calls behind the loop\<close>
  "finish k st = closeBlockquote (closeLists (flushMathBlock k (flushCodeBlock st)))"

definition convertLines :: "katex \<Rightarrow> string list \<Rightarrow> string list" where
  "convertLines k lines = outputs (finish k (foldl (processLine k) initial lines))"

definition convertMarkdown :: "katex \<Rightarrow> string \<Rightarrow> string" where
  "convertMarkdown k raw =
     (let lines = splitNl (normalizeNewlines raw)
      in joinWith ''\<newline>'' (convertLines k lines))"

chapter \<open>Notions for the properties\<close>

section \<open>Sample renderers\<close>

text \<open>
  Renderers to run the model on concrete documents: one wraps the escaped expression in a
  span, as a renderer that succeeds would, the other throws on every expression.
\<close>

definition katexEcho :: katex where
  \<open>katexEcho e d = Inr (''<span class="katex">'' @ escapeHtml e @ ''</span>'')\<close>

definition katexThrows :: katex where
  "katexThrows e d = Inl (KatexError e)"

section \<open>Plain text\<close>

definition plainChar :: "char \<Rightarrow> bool" where
  \<comment> \<open>a code unit that is no line break and that neither \<open>escapeHtml\<close>, the inline patterns
     nor the block scanner give a meaning to\<close>
  \<open>plainChar c =
     (c \<notin> set (''&<>$`*_~[#+-.'' @ [CHR 0x22, CHR 0x27, CHR 0x0A, CHR 0x0D]))\<close>

section \<open>Content lines of a math block\<close>

definition mathContent :: "string \<Rightarrow> bool" where
  \<comment> \<open>inside an open math block the scanner appends such a line to the buffer as it is:
     no fence, no \<open>$$\<close> at the start or at the end of the trimmed line\<close>
  "mathContent l =
     (\<not> startsWith (trim l) ''```'' \<and> \<not> startsWith (trim l) ''$$'' \<and> \<not> endsWith (trim l) ''$$'')"

section \<open>Text without inline markers\<close>

definition inertChar :: "char \<Rightarrow> bool" where
  \<comment> \<open>a code unit that no inline pattern and no math delimiter starts, ends or separates\<close>
  \<open>inertChar c = (c \<notin> set ''$[])!*_~`'')\<close>

section \<open>Counting list tags in the result\<close>

fun countSub :: "string \<Rightarrow> string \<Rightarrow> nat" where
  \<comment> \<open>the number of places of \<open>s\<close> where \<open>t\<close> starts\<close>
  "countSub t [] = 0"
| "countSub t (c # cs) = (if startsWith (c # cs) t then 1 else 0) + countSub t cs"

definition ltFollow :: "string \<Rightarrow> bool" where
  \<comment> \<open>what stands behind a \<open><\<close> does not begin the name of a list tag: it is not \<open>u\<close>,
     \<open>o\<close>, \<open>/u\<close> or \<open>/o\<close>, and the text does not end behind \<open><\<close> or \<open></\<close>\<close>
  "ltFollow s =
     (case s of
        [] \<Rightarrow> False
      | d # ds \<Rightarrow>
          if d = CHR ''u'' \<or> d = CHR ''o'' then False
          else if d = CHR ''/'' then
            (case ds of [] \<Rightarrow> False | e # _ \<Rightarrow> e \<noteq> CHR ''u'' \<and> e \<noteq> CHR ''o'')
          else True)"

fun tagSafe :: "string \<Rightarrow> bool" where
  \<comment> \<open>every \<open><\<close> of the string is followed as \<open>ltFollow\<close> says\<close>
  "tagSafe [] = True"
| "tagSafe (c # cs) = ((if c = CHR ''<'' then ltFollow cs else True) \<and> tagSafe cs)"

definition fenceSafe :: "string \<Rightarrow> bool" where
  \<comment> \<open>a line that is a code fence has no \<open><\<close> (in its language tag)\<close>
  "fenceSafe l = (if startsWith (trim l) ''```'' then CHR ''<'' \<notin> set l else True)"

definition cnt :: "string \<Rightarrow> string list \<Rightarrow> nat" where
  \<comment> \<open>how many fragments are exactly \<open>t\<close>\<close>
  "cnt t fs = length (filter (\<lambda>f. f = t) fs)"

definition listTag :: "string \<Rightarrow> bool" where
  "listTag f = (f = ''<ul>'' \<or> f = ''</ul>'' \<or> f = ''<ol>'' \<or> f = ''</ol>'')"

definition okFrag :: "string \<Rightarrow> bool" where
  "okFrag f = (listTag f \<or> tagSafe f)"

definition scanInv :: "scan \<Rightarrow> bool" where
  \<comment> \<open>the invariant of the scan: an open list is one opening tag ahead\<close>
  "scanInv st =
     (list_all okFrag (outputs st)
      \<and> cnt ''<ul>'' (outputs st) = cnt ''</ul>'' (outputs st) + (if inBullet st then 1 else 0)
      \<and> cnt ''<ol>'' (outputs st) = cnt ''</ol>'' (outputs st) + (if inOrdered st then 1 else 0)
      \<and> CHR ''<'' \<notin> set (codeLanguage st))"

section \<open>Escaped text\<close>

definition escapedChar :: "char \<Rightarrow> bool" where
  \<comment> \<open>a code unit that \<open>escapeHtml\<close> can leave in its result: not \<open><\<close>, \<open>>\<close> or a quote\<close>
  "escapedChar c = (c \<noteq> CHR ''<'' \<and> c \<noteq> CHR ''>'' \<and> c \<noteq> CHR 0x22 \<and> c \<noteq> CHR 0x27)"

definition katexEscapedOnly :: katex where
  \<comment> \<open>a sample renderer that renders escaped expressions in inline mode and throws on
     everything else\<close>
  "katexEscapedOnly e d =
     (if list_all escapedChar e \<and> \<not> d then katexEcho e d else katexThrows e d)"

definition katexShow :: katex where
  \<comment> \<open>a sample renderer that shows the mode and the expression it was given, as it was
     given\<close>
  \<open>katexShow e d =
     Inr (''<math display="'' @ (if d then ''block'' else ''inline'') @ ''">'' @ e @ ''</math>'')\<close>

section \<open>Lines that are list items\<close>

definition listItemLine :: "string \<Rightarrow> bool" where
  \<comment> \<open>the trimmed line reaches one of the two list branches of the scanner\<close>
  "listItemLine t =
     (t \<noteq> [] \<and> headingMatch t = None \<and> \<not> isThematicBreak t \<and> \<not> isQuote t
      \<and> (orderedMatch t \<noteq> None \<or> bulletMatch t \<noteq> None))"

chapter \<open>Lemmas\<close>

section \<open>Strings\<close>

lemma startsWith_Cons_in_set: "startsWith t (c # p) \<Longrightarrow> c \<in> set t"
  by (cases t) (auto simp: startsWith_def)

lemma startsWith_Nil [simp]: "startsWith t []"
  by (simp add: startsWith_def)

lemma startsWith_Cons_Cons [simp]: "startsWith (x # xs) (c # p) = (x = c \<and> startsWith xs p)"
  by (simp add: startsWith_def)

lemma startsWith_Nil_Cons [simp]: "\<not> startsWith [] (c # p)"
  by (simp add: startsWith_def)

lemma startsWith_append: "startsWith (p @ s) p"
  by (simp add: startsWith_def)

lemma startsWith_set: "startsWith t p \<Longrightarrow> set p \<subseteq> set t"
  unfolding startsWith_def by (metis set_take_subset)

lemma normalizeNewlines_id: "CHR 0x0D \<notin> set s \<Longrightarrow> normalizeNewlines s = s"
  by (induction s) auto

lemma splitNl_single: "CHR 0x0A \<notin> set s \<Longrightarrow> splitNl s = [s]"
  by (induction s) auto

section \<open>escapeHtml\<close>

lemma replaceChar_append: "replaceChar c r (a @ b) = replaceChar c r a @ replaceChar c r b"
  by (simp add: replaceChar_def)

lemma replaceChar_id: "c \<notin> set s \<Longrightarrow> replaceChar c r s = s"
  by (induction s) (auto simp: replaceChar_def)

lemma escapeHtml_Nil [simp]: "escapeHtml [] = []"
  by (simp add: escapeHtml_def replaceChar_def)

lemma escapeHtml_append: "escapeHtml (a @ b) = escapeHtml a @ escapeHtml b"
  by (simp add: escapeHtml_def replaceChar_append)

lemma escapeHtml_single:
  \<open>escapeHtml [x] =
     (if x = CHR ''&'' then ''&amp;'' else if x = CHR ''<'' then ''&lt;''
      else if x = CHR ''>'' then ''&gt;'' else if x = CHR 0x22 then ''&quot;''
      else if x = CHR 0x27 then ''&#39;'' else [x])\<close>
  by (simp add: escapeHtml_def replaceChar_def)

lemma escapeHtml_Cons: "escapeHtml (x # xs) = escapeHtml [x] @ escapeHtml xs"
  using escapeHtml_append [of "[x]" xs] by simp

lemma escapeHtml_id:
  "CHR ''&'' \<notin> set s \<Longrightarrow> CHR ''<'' \<notin> set s \<Longrightarrow> CHR ''>'' \<notin> set s \<Longrightarrow>
   CHR 0x22 \<notin> set s \<Longrightarrow> CHR 0x27 \<notin> set s \<Longrightarrow> escapeHtml s = s"
  by (simp add: escapeHtml_def replaceChar_id)

section \<open>Inline math\<close>

lemma inlineMathLoop_no_dollar:
  "CHR ''$'' \<notin> set s \<Longrightarrow> inlineMathLoop k s r b False = r @ s"
proof (induction s arbitrary: r)
  case Nil
  then show ?case by simp
next
  case (Cons c cs)
  then have "take 1 cs \<noteq> ''$''" by (cases cs) auto
  with Cons show ?case by auto
qed

lemma replaceInlineMath_id: "CHR ''$'' \<notin> set s \<Longrightarrow> replaceInlineMath k s = s"
  by (simp add: replaceInlineMath_def inlineMathLoop_no_dollar)

section \<open>Patterns that find nothing\<close>

lemma jsReplace_id:
  "(\<And>p t. set t \<subseteq> set s \<Longrightarrow> re p t = None) \<Longrightarrow> jsReplace re tmpl prev s = s"
proof (induction s arbitrary: prev)
  case Nil
  then show ?case by simp
next
  case (Cons c cs)
  have "re prev (c # cs) = None" by (rule Cons.prems) simp
  moreover have "jsReplace re tmpl (Some c) cs = cs"
    by (rule Cons.IH) (rule Cons.prems, auto)
  ultimately show ?case by simp
qed

lemma reDelim_None: "d \<notin> set t \<Longrightarrow> 0 < n \<Longrightarrow> reDelim d n lb p t = None"
  by (cases n) (auto simp: reDelim_def dest: startsWith_Cons_in_set)

lemma reBracketParen_None: "CHR ''['' \<notin> set t \<Longrightarrow> reBracketParen lead ne p t = None"
  using startsWith_set [of t "lead @ ''[''"] by (auto simp: reBracketParen_def)

lemma jsReplace_reDelim_id:
  "d \<notin> set s \<Longrightarrow> 0 < n \<Longrightarrow> jsReplace (reDelim d n lb) tmpl prev s = s"
  by (rule jsReplace_id) (rule reDelim_None, auto)

lemma jsReplace_reBracketParen_id:
  "CHR ''['' \<notin> set s \<Longrightarrow> jsReplace (reBracketParen lead ne) tmpl prev s = s"
  by (rule jsReplace_id) (rule reBracketParen_None, auto)

lemma inlineChain_id:
  assumes "CHR ''['' \<notin> set s" "CHR ''*'' \<notin> set s" "CHR ''_'' \<notin> set s"
    "CHR ''~'' \<notin> set s" "CHR 0x60 \<notin> set s"
  shows "inlineChain s = s"
  using assms
  by (simp add: inlineChain_def reImage_def reLink_def jsReplace_reDelim_id
      jsReplace_reBracketParen_id)

section \<open>Plain lines\<close>

lemma plain_notin: "list_all plainChar s \<Longrightarrow> \<not> plainChar c \<Longrightarrow> c \<notin> set s"
  by (auto simp: list_all_iff)

lemma parseInline_plain:
  assumes "list_all plainChar s"
  shows "parseInline k s = s"
proof -
  note n = plain_notin [OF assms]
  have e: "escapeHtml s = s"
    by (rule escapeHtml_id) (rule n, simp add: plainChar_def)+
  have m: "replaceInlineMath k s = s"
    by (rule replaceInlineMath_id) (rule n, simp add: plainChar_def)
  have c: "inlineChain s = s"
    by (rule inlineChain_id) (rule n, simp add: plainChar_def)+
  show ?thesis by (simp add: parseInline_def e m c)
qed

lemma blockLine_plain:
  assumes "list_all plainChar t" and "t \<noteq> []"
  shows "blockLine st k t = push (''<p>'' @ parseInline k t @ ''</p>'') (closeBlockquote (closeLists st))"
proof -
  note n = plain_notin [OF assms(1)]
  have h: "headingMatch t = None"
  proof -
    have "CHR ''#'' \<notin> set t" by (rule n) (simp add: plainChar_def)
    then have "takeWhile (\<lambda>c. c = CHR ''#'') t = []" by (cases t) auto
    then show ?thesis by (simp add: headingMatch_def)
  qed
  have r: "\<not> isThematicBreak t"
  proof
    assume a: "isThematicBreak t"
    then obtain c where c: "t = replicate (length t) c" "c = CHR ''-'' \<or> c = CHR ''_'' \<or> c = CHR ''*''"
      unfolding isThematicBreak_def by blast
    from assms(2) have "hd t \<in> set t" by simp
    moreover from c(1) assms(2) have "hd t = c"
      by (metis hd_replicate length_0_conv replicate_empty)
    moreover have "c \<notin> set t" using c(2) n by (auto simp: plainChar_def)
    ultimately show False by simp
  qed
  have q: "\<not> isQuote t"
    using n [of "CHR ''>''"] by (auto simp: isQuote_def plainChar_def dest: startsWith_Cons_in_set)
  have o: "orderedMatch t = None"
  proof -
    have "CHR ''.'' \<notin> set t" by (rule n) (simp add: plainChar_def)
    then have "\<not> startsWith (drop m t) ''.''" for m
      by (metis startsWith_Cons_in_set in_set_dropD)
    then show ?thesis by (simp add: orderedMatch_def Let_def)
  qed
  have b: "bulletMatch t = None"
    using n [of "CHR ''-''"] n [of "CHR ''*''"] n [of "CHR ''+''"]
    by (auto simp: bulletMatch_def plainChar_def dest: startsWith_Cons_in_set)
  show ?thesis using assms(2) by (simp add: blockLine_def h r q o b)
qed

lemma processLine_plain:
  assumes "list_all plainChar line" and "trim line = line" and "line \<noteq> []"
    and "\<not> inCode st" and "\<not> inMathBlock st"
  shows "processLine k st line = push (''<p>'' @ line @ ''</p>'') (closeBlockquote (closeLists st))"
proof -
  note n = plain_notin [OF assms(1)]
  have f: "\<not> startsWith line ''```''"
    using n [of "CHR 0x60"] by (auto simp: plainChar_def dest: startsWith_Cons_in_set)
  have d: "\<not> startsWith line ''$$''"
    using n [of "CHR ''$''"] by (auto simp: plainChar_def dest: startsWith_Cons_in_set)
  show ?thesis
    using assms by (simp add: processLine_def f d blockLine_plain parseInline_plain)
qed

section \<open>Headings\<close>








section \<open>Seven hashes\<close>















section \<open>The scanner inside a code block and behind the last line\<close>

lemma processLine_inCode:
  "inCode st \<Longrightarrow> \<not> startsWith (trim line) ''```'' \<Longrightarrow>
     processLine k st line = st\<lparr>codeBuffer := codeBuffer st @ [line]\<rparr>"
  by (simp add: processLine_def)

lemma foldl_inCode:
  "inCode st \<Longrightarrow> list_all (\<lambda>l. \<not> startsWith (trim l) ''```'') ls \<Longrightarrow>
     foldl (processLine k) st ls = st\<lparr>codeBuffer := codeBuffer st @ ls\<rparr>"
proof (induction ls arbitrary: st)
  case Nil
  then show ?case by simp
next
  case (Cons l ls)
  then show ?case by (simp add: processLine_inCode)
qed

lemma finish_outputs:
  "outputs (finish k st) =
     outputs st
     @ (if inCode st then [codeFragment (codeLanguage st) (codeBuffer st)] else [])
     @ (if inMathBlock st \<and> trim (joinWith ''\<newline>'' (mathBuffer st)) \<noteq> []
        then [renderMath k (trim (joinWith ''\<newline>'' (mathBuffer st))) True] else [])
     @ (if inBullet st then [''</ul>''] else [])
     @ (if inOrdered st then [''</ol>''] else [])
     @ (if inBlockquote st then [''</blockquote>''] else [])"
  by (simp add: finish_def closeBlockquote_def closeLists_def flushMathBlock_def
      flushCodeBlock_def push_def Let_def)

lemma fenced_block:
  assumes "startsWith (trim fence) ''```''" and "startsWith (trim closing) ''```''"
    and "list_all (\<lambda>l. \<not> startsWith (trim l) ''```'') ls"
  shows "convertLines k (fence # ls @ [closing]) = [codeFragment (trim (drop 3 (trim fence))) ls]"
proof -
  define st1 where "st1 = initial\<lparr>inCode := True, codeLanguage := trim (drop 3 (trim fence))\<rparr>"
  have s1: "processLine k initial fence = st1"
    using assms(1)
    by (simp add: st1_def processLine_def fenceLine_def initial_def closeLists_def
        closeBlockquote_def flushMathBlock_def)
  have s2: "foldl (processLine k) st1 ls = st1\<lparr>codeBuffer := codeBuffer st1 @ ls\<rparr>"
    by (rule foldl_inCode) (simp_all add: st1_def assms(3))
  have s3: "processLine k (st1\<lparr>codeBuffer := codeBuffer st1 @ ls\<rparr>) closing
            = flushCodeBlock (st1\<lparr>codeBuffer := codeBuffer st1 @ ls\<rparr>)"
    using assms(2) by (simp add: processLine_def fenceLine_def st1_def)
  have "foldl (processLine k) initial (fence # ls @ [closing])
        = flushCodeBlock (st1\<lparr>codeBuffer := codeBuffer st1 @ ls\<rparr>)"
    by (simp add: s1 s2 s3)
  then show ?thesis
    by (simp add: convertLines_def finish_outputs flushCodeBlock_def push_def st1_def initial_def)
qed

lemma not_bold_example:
  "convertMarkdown k ''```\<newline>**not bold**\<newline>```'' = ''<pre><code>**not bold**</code></pre>''"
  by code_simp

section \<open>Inline math spans\<close>

lemma trim_eq_Nil: "trim s = [] \<longleftrightarrow> list_all isSpace s"
proof
  assume "list_all isSpace s"
  then have d: "dropWhile isSpace s = []" by (simp add: list_all_iff)
  show "trim s = []" by (simp only: trim_def trimEnd_def trimStart_def d) simp
next
  assume t: "trim s = []"
  show "list_all isSpace s"
  proof (rule ccontr)
    assume "\<not> list_all isSpace s"
    then have n: "dropWhile isSpace s \<noteq> []" by (simp add: list_all_iff)
    then have "\<not> isSpace (hd (dropWhile isSpace s))" by (rule hd_dropWhile)
    moreover have "hd (dropWhile isSpace s) \<in> set (rev (dropWhile isSpace s))" using n by simp
    ultimately have "dropWhile isSpace (rev (dropWhile isSpace s)) \<noteq> []"
      unfolding dropWhile_eq_Nil_conv by blast
    then show False using t by (simp add: trim_def trimEnd_def trimStart_def)
  qed
qed

lemma escapeHtml_no_dollar: "CHR ''$'' \<notin> set u \<Longrightarrow> CHR ''$'' \<notin> set (escapeHtml u)"
proof (induction u)
  case Nil
  then show ?case by simp
next
  case (Cons x xs)
  then have "CHR ''$'' \<notin> set (escapeHtml [x])" by (simp add: escapeHtml_single)
  with Cons show ?case by (subst escapeHtml_Cons) simp
qed

lemma escapeHtml_dollar: "escapeHtml (CHR ''$'' # s) = CHR ''$'' # escapeHtml s"
  by (subst escapeHtml_Cons) (simp add: escapeHtml_single)

lemma escapeHtml_single_not_Nil: "escapeHtml [x] \<noteq> []"
  by (simp add: escapeHtml_single)

lemma escapeHtml_eq_Nil [simp]: "escapeHtml u = [] \<longleftrightarrow> u = []"
proof (cases u)
  case Nil
  then show ?thesis by simp
next
  case (Cons x xs)
  then show ?thesis using escapeHtml_Cons [of x xs] escapeHtml_single_not_Nil [of x] by simp
qed

lemma last_escapeHtml:
  assumes "u \<noteq> []" and "last u \<noteq> CHR 0x5C"
  shows "last (escapeHtml u) \<noteq> CHR 0x5C"
proof -
  obtain v x where u: "u = v @ [x]" using assms(1) by (metis rev_exhaust)
  have "last (escapeHtml u) = last (escapeHtml [x])"
    by (simp add: u escapeHtml_append escapeHtml_single_not_Nil)
  also have "\<dots> \<noteq> CHR 0x5C" using assms(2) by (simp add: u escapeHtml_single)
  finally show ?thesis .
qed

lemma escapeHtml_not_blank:
  assumes "\<not> list_all isSpace u"
  shows "\<not> list_all isSpace (escapeHtml u)"
proof -
  obtain a x b where u: "u = a @ x # b" "\<not> isSpace x"
    using assms by (auto simp: list_all_iff dest: split_list)
  have "\<not> list_all isSpace (escapeHtml [x])"
    using u(2) by (simp add: escapeHtml_single isSpace_def)
  moreover have "escapeHtml u = escapeHtml a @ escapeHtml [x] @ escapeHtml b"
    using escapeHtml_append [of a "[x] @ b"] escapeHtml_append [of "[x]" b] by (simp add: u(1))
  ultimately show ?thesis by simp
qed

lemma inlineMathLoop_collect:
  "CHR ''$'' \<notin> set e \<Longrightarrow> e = [] \<or> last e \<noteq> CHR 0x5C \<Longrightarrow>
   inlineMathLoop k (e @ CHR ''$'' # rest) r b True
     = inlineMathLoop k (CHR ''$'' # rest) r (b @ e) True"
proof (induction e arbitrary: b)
  case Nil
  then show ?case by simp
next
  case (Cons c cs)
  have n: "\<not> (c = CHR 0x5C \<and> take 1 (cs @ CHR ''$'' # rest) = ''$'')"
  proof (cases cs)
    case Nil
    then show ?thesis using Cons.prems(2) by simp
  next
    case (Cons d ds)
    then show ?thesis using Cons.prems(1) by auto
  qed
  have l: "cs = [] \<or> last cs \<noteq> CHR 0x5C" using Cons.prems(2) by (cases cs) auto
  have "inlineMathLoop k ((c # cs) @ CHR ''$'' # rest) r b True
        = inlineMathLoop k (cs @ CHR ''$'' # rest) r (b @ [c]) True"
    using n Cons.prems(1) by auto
  also have "\<dots> = inlineMathLoop k (CHR ''$'' # rest) r ((b @ [c]) @ cs) True"
    using Cons.prems(1) l by (intro Cons.IH) auto
  finally show ?case by simp
qed

lemma inlineMathLoop_span:
  assumes "CHR ''$'' \<notin> set e" and "e = [] \<or> last e \<noteq> CHR 0x5C" and "trim e \<noteq> []"
  shows "inlineMathLoop k (CHR ''$'' # e @ CHR ''$'' # rest) r b False
     = inlineMathLoop k rest (r @ renderMath k e False) [] False"
proof -
  have "inlineMathLoop k (CHR ''$'' # e @ CHR ''$'' # rest) r b False
        = inlineMathLoop k (e @ CHR ''$'' # rest) r [] True"
    by simp
  also have "\<dots> = inlineMathLoop k (CHR ''$'' # rest) r e True"
    using inlineMathLoop_collect [OF assms(1,2), of k rest r "[]"] by simp
  also have "\<dots> = inlineMathLoop k rest (r @ renderMath k e False) [] False"
    using assms(3) by simp
  finally show ?thesis .
qed

lemma escaped_span:
  assumes "CHR ''$'' \<notin> set u" and "u \<noteq> []" and "last u \<noteq> CHR 0x5C" and "\<not> list_all isSpace u"
  shows "inlineMathLoop k (escapeHtml (''$'' @ u @ ''$'' @ post)) r b False
     = inlineMathLoop k (escapeHtml post) (r @ renderMath k (escapeHtml u) False) [] False"
proof -
  have e: "escapeHtml (''$'' @ u @ ''$'' @ post)
           = CHR ''$'' # escapeHtml u @ CHR ''$'' # escapeHtml post"
    by (simp add: escapeHtml_append escapeHtml_dollar)
  show ?thesis
    unfolding e
    by (rule inlineMathLoop_span)
      (simp_all add: escapeHtml_no_dollar assms last_escapeHtml trim_eq_Nil escapeHtml_not_blank)
qed

lemma parseInline_span:
  assumes "CHR ''$'' \<notin> set u" and "u \<noteq> []" and "last u \<noteq> CHR 0x5C" and "\<not> list_all isSpace u"
  shows "parseInline k (''$'' @ u @ ''$'') = inlineChain (renderMath k (escapeHtml u) False)"
  using escaped_span [OF assms, of k "[]" "[]" "[]"]
  by (simp add: parseInline_def replaceInlineMath_def)

section \<open>Block math\<close>

lemma processLine_mathContent:
  "\<not> inCode st \<Longrightarrow> inMathBlock st \<Longrightarrow> mathContent l \<Longrightarrow>
   processLine k st l = st\<lparr>mathBuffer := mathBuffer st @ [l]\<rparr>"
  by (simp add: processLine_def mathContentLine_def mathContent_def)

lemma foldl_mathContent:
  "\<not> inCode st \<Longrightarrow> inMathBlock st \<Longrightarrow> list_all mathContent ls \<Longrightarrow>
   foldl (processLine k) st ls = st\<lparr>mathBuffer := mathBuffer st @ ls\<rparr>"
proof (induction ls arbitrary: st)
  case Nil
  then show ?case by simp
next
  case (Cons l ls)
  then show ?case by (simp add: processLine_mathContent)
qed

lemma trim_dollars: "trim ''$$'' = ''$$''"
  by code_simp

lemma math_block:
  assumes "list_all mathContent ls"
  shows "convertLines k (''$$'' # ls @ [''$$'']) =
     (if trim (joinWith ''\<newline>'' ls) = [] then []
      else [renderMath k (trim (joinWith ''\<newline>'' ls)) True])"
proof -
  define st1 where "st1 = initial\<lparr>inMathBlock := True\<rparr>"
  have s1: "processLine k initial ''$$'' = st1"
    by (simp add: processLine_def trim_dollars mathFenceLine_def st1_def initial_def
        closeLists_def closeBlockquote_def flushCodeBlock_def)
  have s2: "foldl (processLine k) st1 ls = st1\<lparr>mathBuffer := mathBuffer st1 @ ls\<rparr>"
    by (rule foldl_mathContent) (simp_all add: st1_def initial_def assms)
  have s3: "processLine k (st1\<lparr>mathBuffer := mathBuffer st1 @ ls\<rparr>) ''$$''
            = flushMathBlock k (st1\<lparr>mathBuffer := mathBuffer st1 @ ls\<rparr>)"
    by (simp add: processLine_def trim_dollars mathFenceLine_def st1_def initial_def
        closeLists_def closeBlockquote_def flushCodeBlock_def trim_eq_Nil)
  have "foldl (processLine k) initial (''$$'' # ls @ [''$$''])
        = flushMathBlock k (st1\<lparr>mathBuffer := mathBuffer st1 @ ls\<rparr>)"
    by (simp add: s1 s2 s3)
  then show ?thesis
    by (simp only: convertLines_def)
      (simp add: finish_outputs flushMathBlock_def push_def st1_def initial_def Let_def)
qed

section \<open>One link in inert text\<close>

lemma inert_notin: "list_all inertChar s \<Longrightarrow> \<not> inertChar c \<Longrightarrow> c \<notin> set s"
  by (auto simp: list_all_iff)

lemma inert_escapeHtml: "list_all inertChar s \<Longrightarrow> list_all inertChar (escapeHtml s)"
proof (induction s)
  case Nil
  then show ?case by simp
next
  case (Cons x xs)
  then have "list_all inertChar (escapeHtml [x])"
    by (simp add: escapeHtml_single inertChar_def)
  with Cons show ?case by (subst escapeHtml_Cons) simp
qed

lemma jsReplace_skip:
  "(\<And>c p t. c \<in> set pre \<Longrightarrow> re p (c # t) = None) \<Longrightarrow>
   \<exists>q. jsReplace re tmpl prev (pre @ s) = pre @ jsReplace re tmpl q s"
proof (induction pre arbitrary: prev)
  case Nil
  then show ?case by auto
next
  case (Cons c cs)
  have "re prev (c # cs @ s) = None" by (rule Cons.prems) simp
  moreover obtain q where "jsReplace re tmpl (Some c) (cs @ s) = cs @ jsReplace re tmpl q s"
    using Cons.IH [of "Some c"] Cons.prems by auto
  ultimately show ?case by auto
qed

lemma reLink_not_bracket: "c \<noteq> CHR ''['' \<Longrightarrow> reLink p (c # t) = None"
  by (simp add: reLink_def reBracketParen_def)

lemma takeWhile_until: "d \<notin> set T \<Longrightarrow> takeWhile (\<lambda>c. c \<noteq> d) (T @ d # R) = T"
  by (induction T) auto

lemma reLink_match:
  assumes "CHR '']'' \<notin> set T" and "CHR '')'' \<notin> set U" and "T \<noteq> []" and "U \<noteq> []"
  shows "reLink p (CHR ''['' # T @ '']('' @ U @ '')'' @ Q)
         = Some ([T, U], 1 + length T + 2 + length U + 1)"
proof -
  have a: "takeWhile (\<lambda>c. c \<noteq> CHR '']'') (T @ CHR '']'' # CHR ''('' # U @ CHR '')'' # Q) = T"
    using assms(1) by (rule takeWhile_until)
  have b: "takeWhile (\<lambda>c. c \<noteq> CHR '')'') (U @ CHR '')'' # Q) = U"
    using assms(2) by (rule takeWhile_until)
  show ?thesis
    using assms(3,4) by (simp add: reLink_def reBracketParen_def a b)
qed

lemma jsReplace_reLink_one:
  assumes "CHR ''['' \<notin> set P" and "CHR ''['' \<notin> set Q"
    and "CHR '']'' \<notin> set T" and "CHR '')'' \<notin> set U" and "T \<noteq> []" and "U \<noteq> []"
  shows "jsReplace reLink tmplLink prev (P @ ''['' @ T @ '']('' @ U @ '')'' @ Q)
         = P @ tmplLink [T, U] @ Q"
proof -
  define R where "R = T @ '']('' @ U @ '')'' @ Q"
  have "\<exists>q. jsReplace reLink tmplLink prev (P @ CHR ''['' # R)
            = P @ jsReplace reLink tmplLink q (CHR ''['' # R)"
  proof (rule jsReplace_skip)
    fix c p t
    assume "c \<in> set P"
    then have "c \<noteq> CHR ''[''" using assms(1) by auto
    then show "reLink p (c # t) = None" by (rule reLink_not_bracket)
  qed
  then obtain q where q: "jsReplace reLink tmplLink prev (P @ CHR ''['' # R)
      = P @ jsReplace reLink tmplLink q (CHR ''['' # R)" ..
  have m: "reLink q (CHR ''['' # R) = Some ([T, U], 1 + length T + 2 + length U + 1)"
    unfolding R_def using assms(3-6) by (rule reLink_match)
  have "R = (T @ '']('' @ U @ '')'') @ Q" by (simp add: R_def)
  moreover have "length (T @ '']('' @ U @ '')'') = length T + 2 + length U + 1" by simp
  ultimately have d: "drop (length T + 2 + length U + 1) R = Q"
    by (metis append_eq_conv_conj)
  have "jsReplace reLink tmplLink q (CHR ''['' # R)
        = tmplLink [T, U] @ jsReplace reLink tmplLink
            (Some ((CHR ''['' # R) ! (length T + 2 + length U + 1))) Q"
    using d by (simp add: m)
  also have "jsReplace reLink tmplLink
            (Some ((CHR ''['' # R) ! (length T + 2 + length U + 1))) Q = Q"
    unfolding reLink_def using assms(2) by (rule jsReplace_reBracketParen_id)
  finally have "jsReplace reLink tmplLink prev (P @ CHR ''['' # R) = P @ tmplLink [T, U] @ Q"
    using q by simp
  then show ?thesis by (simp add: R_def)
qed

section \<open>A delimiter that occurs once\<close>

lemma jsReplace_id_suffix:
  "(\<And>p t. suffix t s \<Longrightarrow> re p t = None) \<Longrightarrow> jsReplace re tmpl prev s = s"
proof (induction s arbitrary: prev)
  case Nil
  then show ?case by simp
next
  case (Cons c cs)
  have "re prev (c # cs) = None" by (rule Cons.prems) simp
  moreover have "jsReplace re tmpl (Some c) cs = cs"
    by (rule Cons.IH) (rule Cons.prems, simp add: suffix_Cons)
  ultimately show ?case by simp
qed

lemma reDelim_None_once:
  assumes "length (filter (\<lambda>c. c = d) t) \<le> 1" and "0 < n"
  shows "reDelim d n lb p t = None"
proof (rule ccontr)
  assume "reDelim d n lb p t \<noteq> None"
  then have s: "startsWith t (replicate n d)"
    and r: "startsWith (drop (n + length (takeWhile (\<lambda>c. c \<noteq> d) (drop n t))) t) (replicate n d)"
    by (auto simp: reDelim_def Let_def split: if_splits)
  obtain m where m: "n = Suc m" using assms(2) by (cases n) auto
  from s obtain t' where t: "t = d # t'" by (cases t) (auto simp: m)
  have "d \<in> set (drop (n + length (takeWhile (\<lambda>c. c \<noteq> d) (drop n t))) t)"
    using r by (auto simp: m dest: startsWith_Cons_in_set)
  then have "d \<in> set t'" by (auto simp: t m dest: in_set_dropD)
  then have "filter (\<lambda>c. c = d) t' \<noteq> []" by (auto simp: filter_empty_conv)
  then have "2 \<le> length (filter (\<lambda>c. c = d) t)"
    by (cases "filter (\<lambda>c. c = d) t'") (auto simp: t)
  then show False using assms(1) by simp
qed

lemma filter_suffix_length:
  "suffix t s \<Longrightarrow> length (filter P t) \<le> length (filter P s)"
  by (auto simp: suffix_def)

lemma jsReplace_reDelim_once:
  assumes "length (filter (\<lambda>c. c = d) s) \<le> 1" and "0 < n"
  shows "jsReplace (reDelim d n lb) tmpl prev s = s"
proof (rule jsReplace_id_suffix)
  fix p t
  assume "suffix t s"
  then have "length (filter (\<lambda>c. c = d) t) \<le> 1"
    using assms(1) filter_suffix_length [of t s "\<lambda>c. c = d"] by simp
  then show "reDelim d n lb p t = None" using assms(2) by (rule reDelim_None_once)
qed

lemma filter_notin: "d \<notin> set s \<Longrightarrow> filter (\<lambda>c. c = d) s = []"
  by (auto simp: filter_empty_conv)

lemma anchor_intact:
  assumes "list_all inertChar P" "list_all inertChar T" "list_all inertChar U" "list_all inertChar Q"
    and "T \<noteq> []" and "U \<noteq> []"
  shows "inlineChain (P @ ''['' @ T @ '']('' @ U @ '')'' @ Q) = P @ tmplLink [T, U] @ Q"
proof -
  note ns = assms(1-4) [THEN inert_notin]
  define W where "W = P @ ''['' @ T @ '']('' @ U @ '')'' @ Q"
  define A where "A = P @ tmplLink [T, U] @ Q"
  have i: "jsReplace reImage tmplImage None W = W"
  proof (rule jsReplace_id)
    fix p t
    assume "set t \<subseteq> set W"
    then have "CHR ''!'' \<notin> set t" using ns [of "CHR ''!''"] by (auto simp: inertChar_def W_def)
    then show "reImage p t = None"
      by (cases t) (auto simp: reImage_def reBracketParen_def)
  qed
  have l: "jsReplace reLink tmplLink None W = A"
    unfolding W_def A_def
    by (rule jsReplace_reLink_one) (use assms(5,6) in \<open>simp_all add: ns inertChar_def\<close>)
  have s: "CHR ''*'' \<notin> set A" "CHR ''~'' \<notin> set A" "CHR 0x60 \<notin> set A"
    using ns [of "CHR ''*''"] ns [of "CHR ''~''"] ns [of "CHR 0x60"]
    by (simp_all add: A_def tmplLink_def inertChar_def)
  have u: "length (filter (\<lambda>c. c = CHR ''_'') A) \<le> 1"
    using ns [of "CHR ''_''", THEN filter_notin] by (simp add: A_def tmplLink_def inertChar_def)
  have d: "jsReplace (reDelim d n lb) tmpl None A = A"
    if "d \<notin> set A" and "0 < n" for d n lb tmpl
    using that by (rule jsReplace_reDelim_id)
  have e: "jsReplace (reDelim CHR ''_'' n lb) tmpl None A = A" if "0 < n" for n lb tmpl
    using u that by (rule jsReplace_reDelim_once)
  have "inlineChain W = A"
    unfolding inlineChain_def i l
    by (simp only: d [OF s(1)] d [OF s(2)] d [OF s(3)] e zero_less_one zero_less_numeral)
  then show ?thesis by (simp only: W_def A_def)
qed

lemma escapeHtml_brackets:
  "escapeHtml (pre @ ''['' @ t @ '']('' @ u @ '')'' @ post)
   = escapeHtml pre @ ''['' @ escapeHtml t @ '']('' @ escapeHtml u @ '')'' @ escapeHtml post"
proof -
  have a: "escapeHtml ''['' = ''[''" "escapeHtml '']('' = '']('' " "escapeHtml '')'' = '')''"
    by (simp_all add: escapeHtml_def replaceChar_def)
  have "escapeHtml (pre @ ''['' @ t @ '']('' @ u @ '')'' @ post)
        = escapeHtml pre @ escapeHtml ''['' @ escapeHtml t @ escapeHtml '']('' @ escapeHtml u
          @ escapeHtml '')'' @ escapeHtml post"
    by (simp only: escapeHtml_append)
  then show ?thesis by (simp only: a)
qed

section \<open>Strings without list tags\<close>

lemma tagSafe_append: "tagSafe a \<Longrightarrow> tagSafe b \<Longrightarrow> tagSafe (a @ b)"
proof (induction a)
  case Nil
  then show ?case by simp
next
  case (Cons c cs)
  have "ltFollow (cs @ b)" if "ltFollow cs"
    using that by (auto simp: ltFollow_def split: list.splits if_splits)
  with Cons show ?case by auto
qed

lemma tagSafe_no_lt: "CHR ''<'' \<notin> set s \<Longrightarrow> tagSafe s"
  by (induction s) auto

lemma tagSafe_drop: "tagSafe s \<Longrightarrow> tagSafe (drop n s)"
proof (induction s arbitrary: n)
  case Nil
  then show ?case by simp
next
  case (Cons c cs)
  then show ?case by (cases n) auto
qed

lemma tagSafe_retail:
  "tagSafe (body @ t1) \<Longrightarrow> tagSafe t2 \<Longrightarrow> ltFollow t2 \<Longrightarrow> tagSafe (body @ t2)"
proof (induction body)
  case Nil
  then show ?case by simp
next
  case (Cons c cs)
  have "ltFollow (cs @ t2)" if "ltFollow (cs @ t1)"
  proof (cases cs)
    case Nil
    then show ?thesis using Cons.prems(3) by simp
  next
    case a: (Cons z zs)
    show ?thesis
    proof (cases zs)
      case Nil
      then show ?thesis
        using that Cons.prems(3) a by (auto simp: ltFollow_def split: list.splits if_splits)
    next
      case (Cons y ys)
      then show ?thesis using that a by (auto simp: ltFollow_def split: if_splits)
    qed
  qed
  with Cons show ?case by auto
qed

lemma escapeHtml_no_lt: "CHR ''<'' \<notin> set (escapeHtml s)"
proof (induction s)
  case Nil
  then show ?case by simp
next
  case (Cons x xs)
  have "CHR ''<'' \<notin> set (escapeHtml [x])" by (simp add: escapeHtml_single)
  with Cons show ?case by (subst escapeHtml_Cons) simp
qed

lemma tagSafe_escapeHtml: "tagSafe (escapeHtml s)"
  by (rule tagSafe_no_lt) (rule escapeHtml_no_lt)

lemma tagSafe_mathError: "tagSafe (mathError t)"
  unfolding mathError_def
  by (intro tagSafe_append tagSafe_escapeHtml) (simp_all add: ltFollow_def)

section \<open>Inline math keeps strings free of list tags\<close>

lemma tagSafe_inlineMathLoop:
  "(\<And>e d. tagSafe (renderMath k e d)) \<Longrightarrow> tagSafe r \<Longrightarrow> CHR ''<'' \<notin> set s \<Longrightarrow>
   CHR ''<'' \<notin> set b \<Longrightarrow> tagSafe (inlineMathLoop k s r b m)"
proof (induction k s r b m rule: inlineMathLoop.induct)
  case (1 k result buffer inMath)
  have "tagSafe (''$'' @ buffer)" using 1(4) by (intro tagSafe_no_lt) simp
  then have "tagSafe (result @ ''$'' @ buffer)" by (rule tagSafe_append [OF 1(2)])
  then show ?case using 1(2) by simp
next
  case (2 k c cs result buffer inMath)
  note p = "2.prems"
  have d: "CHR ''<'' \<notin> set (drop 1 cs)" using p(3) by (auto dest: in_set_dropD)
  have t1: "tagSafe (result @ ''$'')" by (rule tagSafe_append [OF p(2)]) simp
  have "tagSafe (''$'' @ buffer @ ''$'')" using p(4) by (intro tagSafe_no_lt) simp
  then have t2: "tagSafe (result @ ''$'' @ buffer @ ''$'')"
    by (rule tagSafe_append [OF p(2)])
  have t3: "tagSafe (result @ renderMath k buffer False)"
    by (rule tagSafe_append [OF p(2) p(1)])
  have "tagSafe [c]" using p(3) by auto
  then have t4: "tagSafe (result @ [c])" by (rule tagSafe_append [OF p(2)])
  show ?case
    using "2.IH" p d t1 t2 t3 t4 by (simp del: append_assoc)
qed

lemma tagSafe_replaceInlineMath:
  assumes "\<And>e d. tagSafe (renderMath k e d)"
  shows "tagSafe (replaceInlineMath k (escapeHtml v))"
  unfolding replaceInlineMath_def
  by (rule tagSafe_inlineMathLoop) (simp_all add: assms escapeHtml_no_lt)

section \<open>A replacement keeps strings free of list tags\<close>

lemma jsReplace_first:
  assumes "\<And>p s g n. re p s = Some (g, n) \<Longrightarrow> \<exists>y. tmpl g = CHR ''<'' # y"
  shows "\<exists>x xs. jsReplace re tmpl p (e # es) = x # xs \<and> (x = e \<or> x = CHR ''<'')"
proof (cases "re p (e # es)")
  case None
  then show ?thesis by simp
next
  case (Some a)
  obtain g n where a: "a = (g, n)" by (cases a)
  obtain y where "tmpl g = CHR ''<'' # y" using assms Some a by blast
  then show ?thesis using Some a by simp
qed

lemma ltFollow_jsReplace:
  assumes m: "\<And>p s g n. re p s = Some (g, n) \<Longrightarrow> \<exists>y. tmpl g = CHR ''<'' # y"
    and "ltFollow s"
  shows "ltFollow (jsReplace re tmpl p s)"
proof -
  obtain d ds where s: "s = d # ds" using assms(2) by (cases s) (auto simp: ltFollow_def)
  show ?thesis
  proof (cases "re p (d # ds)")
    case (Some a)
    obtain g n where a: "a = (g, n)" by (cases a)
    obtain y where "tmpl g = CHR ''<'' # y" using m Some a by blast
    then show ?thesis using Some a by (simp add: s ltFollow_def)
  next
    case None
    show ?thesis
    proof (cases ds)
      case Nil
      then show ?thesis using assms(2) None by (auto simp: s ltFollow_def split: if_splits)
    next
      case (Cons e es)
      obtain x xs where x: "jsReplace re tmpl (Some d) (e # es) = x # xs" "x = e \<or> x = CHR ''<''"
        using jsReplace_first [of re tmpl "Some d" e es] m by blast
      show ?thesis
        using assms(2) None x by (auto simp: s Cons ltFollow_def split: if_splits)
    qed
  qed
qed

lemma tagSafe_jsReplace:
  "(\<And>p s g n. re p s = Some (g, n) \<Longrightarrow> \<exists>y. tmpl g = CHR ''<'' # y) \<Longrightarrow>
   (\<And>p s g n. re p s = Some (g, n) \<Longrightarrow> tagSafe s \<Longrightarrow> tagSafe (tmpl g)) \<Longrightarrow>
   tagSafe s \<Longrightarrow> tagSafe (jsReplace re tmpl prev s)"
proof (induction re tmpl prev s rule: jsReplace.induct)
  case (1 re tmpl prev)
  then show ?case by simp
next
  case (2 re tmpl prev c cs)
  note m1 = "2.prems"(1) and m2 = "2.prems"(2) and ts = "2.prems"(3)
  have tcs: "tagSafe cs" using ts by simp
  show ?case
  proof (cases "re prev (c # cs)")
    case None
    have a: "tagSafe (jsReplace re tmpl (Some c) cs)"
      using "2.IH"(1) [OF None] m1 m2 tcs by blast
    have "ltFollow (jsReplace re tmpl (Some c) cs)" if "c = CHR ''<''"
    proof -
      have "ltFollow cs" using ts that by simp
      with m1 show ?thesis by (rule ltFollow_jsReplace)
    qed
    then show ?thesis using None a by simp
  next
    case (Some a)
    obtain g n where a: "a = (g, n)" by (cases a)
    have "tagSafe (drop (n - 1) cs)" using tcs by (rule tagSafe_drop)
    then have b: "tagSafe (jsReplace re tmpl (Some ((c # cs) ! (n - 1))) (drop (n - 1) cs))"
      using "2.IH"(2) [OF Some a [symmetric]] m1 m2 by blast
    have "tagSafe (tmpl g)" using m2 Some a ts by blast
    then show ?thesis using Some a b by (simp add: tagSafe_append)
  qed
qed

lemma takeWhile_drop_id: "takeWhile P xs @ drop (length (takeWhile P xs)) xs = xs"
  by (metis dropWhile_eq_drop takeWhile_dropWhile_id)

lemma tagSafe_group:
  assumes "tagSafe s" and "tagSafe t2" and "ltFollow t2"
  shows "tagSafe (takeWhile P (drop n s) @ t2)"
proof -
  have "tagSafe (drop n s)" using assms(1) by (rule tagSafe_drop)
  then have "tagSafe (takeWhile P (drop n s) @ drop (length (takeWhile P (drop n s))) (drop n s))"
    by (simp only: takeWhile_drop_id)
  then show ?thesis using assms(2,3) by (rule tagSafe_retail)
qed

lemma reDelim_tmplTag_first:
  "reDelim d n lb p s = Some (g, m) \<Longrightarrow> \<exists>y. tmplTag tag g = CHR ''<'' # y"
  by (simp add: tmplTag_def)

lemma reDelim_tmplTag_safe:
  assumes "reDelim d n lb p s = Some (g, m)" and "tagSafe s"
    and "tag = ''strong'' \<or> tag = ''em'' \<or> tag = ''del'' \<or> tag = ''code''"
  shows "tagSafe (tmplTag tag g)"
proof -
  have g: "g = [takeWhile (\<lambda>c. c \<noteq> d) (drop n s)]"
    using assms(1) by (auto simp: reDelim_def Let_def split: if_splits)
  have c: "tagSafe (''</'' @ tag @ ''>'')" "ltFollow (''</'' @ tag @ ''>'')"
    using assms(3) by (auto simp: ltFollow_def)
  have o: "tagSafe (''<'' @ tag @ ''>'')" using assms(3) by (auto simp: ltFollow_def)
  have "tagSafe (takeWhile (\<lambda>c. c \<noteq> d) (drop n s) @ ''</'' @ tag @ ''>'')"
    using assms(2) c by (rule tagSafe_group)
  then have "tagSafe ((''<'' @ tag @ ''>'') @ takeWhile (\<lambda>c. c \<noteq> d) (drop n s) @ ''</'' @ tag @ ''>'')"
    by (rule tagSafe_append [OF o])
  then show ?thesis by (simp add: tmplTag_def g)
qed

lemma tagSafe_jsReplace_reDelim:
  assumes "tagSafe s"
    and "tag = ''strong'' \<or> tag = ''em'' \<or> tag = ''del'' \<or> tag = ''code''"
  shows "tagSafe (jsReplace (reDelim d n lb) (tmplTag tag) prev s)"
  using reDelim_tmplTag_first reDelim_tmplTag_safe [OF _ _ assms(2)] assms(1)
  by (rule tagSafe_jsReplace)

lemma reBracketParen_groups:
  assumes "reBracketParen lead ne p s = Some (g, m)"
  shows "\<exists>a b. g = [takeWhile (\<lambda>c. c \<noteq> CHR '']'') (drop a s), takeWhile (\<lambda>c. c \<noteq> CHR '')'') (drop b s)]"
proof -
  let ?t = "takeWhile (\<lambda>c. c \<noteq> CHR '']'') (drop (length lead + 1) s)"
  let ?r1 = "drop (length lead + 1 + length ?t) s"
  have "g = [?t, takeWhile (\<lambda>c. c \<noteq> CHR '')'') (drop 2 ?r1)]"
    using assms by (auto simp: reBracketParen_def Let_def split: if_splits)
  then show ?thesis by (metis drop_drop)
qed

lemma tagSafe_tmplLink:
  assumes "reLink p s = Some (g, m)" and "tagSafe s"
  shows "tagSafe (tmplLink g)"
proof -
  obtain a b where g: "g = [takeWhile (\<lambda>c. c \<noteq> CHR '']'') (drop a s), takeWhile (\<lambda>c. c \<noteq> CHR '')'') (drop b s)]"
    using assms(1) reBracketParen_groups unfolding reLink_def by blast
  let ?T = "takeWhile (\<lambda>c. c \<noteq> CHR '']'') (drop a s)"
  let ?U = "takeWhile (\<lambda>c. c \<noteq> CHR '')'') (drop b s)"
  have 1: "tagSafe (?T @ ''</a>'')"
    using assms(2) by (rule tagSafe_group) (simp_all add: ltFollow_def)
  have 2: \<open>tagSafe (''" target="_blank" rel="noreferrer">'' @ ?T @ ''</a>'')\<close>
    by (rule tagSafe_append [OF _ 1]) simp
  have 3: \<open>tagSafe (?U @ ''" target="_blank" rel="noreferrer">'' @ ?T @ ''</a>'')\<close>
    using assms(2) 2 by (rule tagSafe_group) (simp add: ltFollow_def)
  have \<open>tagSafe (''<a href="'' @ ?U @ ''" target="_blank" rel="noreferrer">'' @ ?T @ ''</a>'')\<close>
    by (rule tagSafe_append [OF _ 3]) (simp add: ltFollow_def)
  then show ?thesis by (simp add: tmplLink_def g)
qed

lemma tagSafe_tmplImage:
  assumes "reImage p s = Some (g, m)" and "tagSafe s"
  shows "tagSafe (tmplImage g)"
proof -
  obtain a b where g: "g = [takeWhile (\<lambda>c. c \<noteq> CHR '']'') (drop a s), takeWhile (\<lambda>c. c \<noteq> CHR '')'') (drop b s)]"
    using assms(1) reBracketParen_groups unfolding reImage_def by blast
  let ?T = "takeWhile (\<lambda>c. c \<noteq> CHR '']'') (drop a s)"
  let ?U = "takeWhile (\<lambda>c. c \<noteq> CHR '')'') (drop b s)"
  have 1: \<open>tagSafe (?U @ ''" />'')\<close>
    using assms(2) by (rule tagSafe_group) (simp_all add: ltFollow_def)
  have 2: \<open>tagSafe (''" src="'' @ ?U @ ''" />'')\<close>
    by (rule tagSafe_append [OF _ 1]) simp
  have 3: \<open>tagSafe (?T @ ''" src="'' @ ?U @ ''" />'')\<close>
    using assms(2) 2 by (rule tagSafe_group) (simp add: ltFollow_def)
  have \<open>tagSafe (''<img alt="'' @ ?T @ ''" src="'' @ ?U @ ''" />'')\<close>
    by (rule tagSafe_append [OF _ 3]) (simp add: ltFollow_def)
  then show ?thesis by (simp add: tmplImage_def g)
qed

lemma tagSafe_jsReplace_reLink:
  assumes "tagSafe s"
  shows "tagSafe (jsReplace reLink tmplLink prev s)"
proof (rule tagSafe_jsReplace)
  show "\<exists>y. tmplLink g = CHR ''<'' # y" for g by (simp add: tmplLink_def)
  show "tagSafe (tmplLink g)" if "reLink p s = Some (g, n)" "tagSafe s" for p s g n
    using that by (rule tagSafe_tmplLink)
  show "tagSafe s" by (rule assms)
qed

lemma tagSafe_jsReplace_reImage:
  assumes "tagSafe s"
  shows "tagSafe (jsReplace reImage tmplImage prev s)"
proof (rule tagSafe_jsReplace)
  show "\<exists>y. tmplImage g = CHR ''<'' # y" for g by (simp add: tmplImage_def)
  show "tagSafe (tmplImage g)" if "reImage p s = Some (g, n)" "tagSafe s" for p s g n
    using that by (rule tagSafe_tmplImage)
  show "tagSafe s" by (rule assms)
qed

lemma tagSafe_inlineChain: "tagSafe s \<Longrightarrow> tagSafe (inlineChain s)"
  unfolding inlineChain_def
  by (intro tagSafe_jsReplace_reDelim tagSafe_jsReplace_reLink tagSafe_jsReplace_reImage) simp_all

lemma tagSafe_parseInline:
  assumes "\<And>e d. tagSafe (renderMath k e d)"
  shows "tagSafe (parseInline k v)"
  by (simp add: parseInline_def tagSafe_inlineChain tagSafe_replaceInlineMath [OF assms])

section \<open>Fragments and the invariant of the scan\<close>

lemma tagSafe_not_listTag: "tagSafe f \<Longrightarrow> \<not> listTag f"
  by (auto simp: listTag_def ltFollow_def)

lemma cnt_snoc: "cnt t (fs @ [f]) = cnt t fs + (if f = t then 1 else 0)"
  by (simp add: cnt_def)

lemma scanInv_fields [simp]:
  "scanInv (st\<lparr>inCode := a\<rparr>) = scanInv st"
  "scanInv (st\<lparr>inMathBlock := b\<rparr>) = scanInv st"
  "scanInv (st\<lparr>codeBuffer := c\<rparr>) = scanInv st"
  "scanInv (st\<lparr>mathBuffer := d\<rparr>) = scanInv st"
  "scanInv (st\<lparr>inBlockquote := e\<rparr>) = scanInv st"
  by (simp_all add: scanInv_def)

lemma scanInv_push: "scanInv st \<Longrightarrow> tagSafe f \<Longrightarrow> scanInv (push f st)"
  using tagSafe_not_listTag [of f]
  by (auto simp: scanInv_def push_def cnt_snoc okFrag_def listTag_def)

lemma push_fields [simp]:
  "inBullet (push f st) = inBullet st" "inOrdered (push f st) = inOrdered st"
  "inBlockquote (push f st) = inBlockquote st" "inCode (push f st) = inCode st"
  "inMathBlock (push f st) = inMathBlock st" "codeLanguage (push f st) = codeLanguage st"
  by (simp_all add: push_def)

lemma scanInv_closeLists:
  "scanInv st \<Longrightarrow> scanInv (closeLists st)"
  by (auto simp: scanInv_def closeLists_def push_def cnt_snoc okFrag_def listTag_def Let_def)

lemma closeLists_closed [simp]:
  "\<not> inBullet (closeLists st)" "\<not> inOrdered (closeLists st)"
  by (simp_all add: closeLists_def Let_def)

lemma scanInv_closeBlockquote: "scanInv st \<Longrightarrow> scanInv (closeBlockquote st)"
  by (auto simp: closeBlockquote_def intro!: scanInv_push simp: ltFollow_def)

lemma closeBlockquote_fields [simp]:
  "inBullet (closeBlockquote st) = inBullet st" "inOrdered (closeBlockquote st) = inOrdered st"
  by (simp_all add: closeBlockquote_def)

lemma tagSafe_codeFragment: "CHR ''<'' \<notin> set language \<Longrightarrow> tagSafe (codeFragment language buffer)"
proof -
  assume l: "CHR ''<'' \<notin> set language"
  let ?c = \<open>(if language \<noteq> [] then '' class="language-'' @ language @ [CHR 0x22] else [])\<close>
  have 1: "tagSafe ''<pre><code''" by (simp add: ltFollow_def)
  have 2: "tagSafe (?c @ ''>'')" using l by (intro tagSafe_no_lt) simp
  have 3: "tagSafe ''</code></pre>''" by (simp add: ltFollow_def)
  have "tagSafe (''<pre><code'' @ (?c @ ''>'') @ escapeHtml (joinWith ''\<newline>'' buffer) @ ''</code></pre>'')"
    by (intro tagSafe_append 1 2 3 tagSafe_escapeHtml)
  then show ?thesis by (simp add: codeFragment_def)
qed

lemma scanInv_flushCodeBlock: "scanInv st \<Longrightarrow> scanInv (flushCodeBlock st)"
proof -
  assume a: "scanInv st"
  then have "tagSafe (codeFragment (codeLanguage st) (codeBuffer st))"
    by (intro tagSafe_codeFragment) (simp add: scanInv_def)
  with a have "scanInv (push (codeFragment (codeLanguage st) (codeBuffer st)) st)"
    by (rule scanInv_push)
  then show ?thesis using a by (simp add: flushCodeBlock_def scanInv_def)
qed

lemma flushCodeBlock_fields [simp]:
  "inBullet (flushCodeBlock st) = inBullet st" "inOrdered (flushCodeBlock st) = inOrdered st"
  by (simp_all add: flushCodeBlock_def)

lemma scanInv_flushMathBlock:
  assumes "\<And>e d. tagSafe (renderMath k e d)" and "scanInv st"
  shows "scanInv (flushMathBlock k st)"
  using assms by (simp add: flushMathBlock_def Let_def scanInv_push)

lemma flushMathBlock_fields [simp]:
  "inBullet (flushMathBlock k st) = inBullet st" "inOrdered (flushMathBlock k st) = inOrdered st"
  by (simp_all add: flushMathBlock_def Let_def)

lemma set_trim: "set (trim s) \<subseteq> set s"
proof -
  show ?thesis
    by (auto simp: trim_def trimEnd_def trimStart_def dest!: set_dropWhileD)
qed

lemma scanInv_fenceLine:
  assumes "\<And>e d. tagSafe (renderMath k e d)" and "scanInv st" and "CHR ''<'' \<notin> set line"
  shows "scanInv (fenceLine st k (trim line))"
proof -
  have "CHR ''<'' \<notin> set (trim (drop 3 (trim line)))"
    using assms(3) set_trim [of line] set_trim [of "drop 3 (trim line)"]
    by (meson in_set_dropD subsetD)
  moreover have "scanInv (flushMathBlock k (closeBlockquote (closeLists st)))"
    by (intro scanInv_flushMathBlock scanInv_closeBlockquote scanInv_closeLists assms)
  ultimately have "scanInv ((flushMathBlock k (closeBlockquote (closeLists st)))
      \<lparr>inCode := True, codeLanguage := trim (drop 3 (trim line))\<rparr>)"
    by (simp add: scanInv_def)
  then show ?thesis using assms(2) by (simp add: fenceLine_def scanInv_flushCodeBlock)
qed

lemma scanInv_mathFenceLine:
  assumes "\<And>e d. tagSafe (renderMath k e d)" and "scanInv st"
  shows "scanInv (mathFenceLine st k t)"
proof -
  have a: "scanInv (flushCodeBlock (closeBlockquote (closeLists st)))"
    by (intro scanInv_flushCodeBlock scanInv_closeBlockquote scanInv_closeLists assms)
  show ?thesis
    unfolding mathFenceLine_def Let_def
    using a assms(1) by (auto intro!: scanInv_flushMathBlock scanInv_push)
qed

lemma scanInv_mathContentLine:
  assumes "\<And>e d. tagSafe (renderMath k e d)" and "scanInv st"
  shows "scanInv (mathContentLine st k line t)"
  unfolding mathContentLine_def Let_def
  using assms by (auto intro!: scanInv_flushMathBlock)

lemma showNat_no_lt: "CHR ''<'' \<notin> set (showNat n)"
proof (induction n rule: showNat.induct)
  case (1 n)
  have d: "digitChar m \<noteq> CHR ''<''" if "m < 10" for m
  proof
    assume "digitChar m = CHR ''<''"
    then have "(of_char (digitChar m) :: nat) = of_char CHR ''<''" by simp
    then have "(48 + m) mod 256 = 60" by (simp add: digitChar_def)
    then show False using that by simp
  qed
  show ?case
  proof (cases "n < 10")
    case True
    then show ?thesis using d [of n] by (subst showNat.simps) auto
  next
    case False
    then show ?thesis using 1 d [of "n mod 10"] by (subst showNat.simps) auto
  qed
qed

lemma tagSafe_wrap:
  assumes "tagSafe a" and "tagSafe b" and "tagSafe c"
  shows "tagSafe (a @ b @ c)"
  by (intro tagSafe_append assms)

lemma tagSafe_headingFragment:
  assumes "\<And>e d. tagSafe (renderMath k e d)"
  shows "tagSafe (headingFragment k level title)"
proof -
  have n: "tagSafe (showNat level @ ''>'')"
    using showNat_no_lt [of level] by (intro tagSafe_no_lt) simp
  have 1: "tagSafe (''<h'' @ showNat level @ ''>'')"
    by (rule tagSafe_append [OF _ n]) (simp add: ltFollow_def)
  have 2: "tagSafe (''</h'' @ showNat level @ ''>'')"
    by (rule tagSafe_append [OF _ n]) (simp add: ltFollow_def)
  have "tagSafe ((''<h'' @ showNat level @ ''>'') @ parseInline k title @ (''</h'' @ showNat level @ ''>''))"
    by (intro tagSafe_wrap 1 2 tagSafe_parseInline assms)
  then show ?thesis by (simp add: headingFragment_def)
qed

lemma tagSafe_paragraph:
  assumes "\<And>e d. tagSafe (renderMath k e d)"
  shows "tagSafe (''<p>'' @ parseInline k v @ ''</p>'')"
  by (intro tagSafe_wrap tagSafe_parseInline assms) (simp_all add: ltFollow_def)

lemma tagSafe_item:
  assumes "\<And>e d. tagSafe (renderMath k e d)"
  shows "tagSafe (''<li>'' @ parseInline k v @ ''</li>'')"
  by (intro tagSafe_wrap tagSafe_parseInline assms) (simp_all add: ltFollow_def)

lemma scanInv_open_ordered:
  assumes "scanInv st"
  shows "scanInv ((push ''<ol>'' (closeBlockquote (closeLists st)))\<lparr>inOrdered := True\<rparr>)"
proof -
  have "scanInv (closeBlockquote (closeLists st))"
    by (intro scanInv_closeBlockquote scanInv_closeLists assms)
  moreover have "\<not> inOrdered (closeBlockquote (closeLists st))" by simp
  ultimately show ?thesis
    by (auto simp: scanInv_def push_def cnt_snoc okFrag_def listTag_def)
qed

lemma scanInv_open_bullet:
  assumes "scanInv st"
  shows "scanInv ((push ''<ul>'' (closeBlockquote (closeLists st)))\<lparr>inBullet := True\<rparr>)"
proof -
  have "scanInv (closeBlockquote (closeLists st))"
    by (intro scanInv_closeBlockquote scanInv_closeLists assms)
  moreover have "\<not> inBullet (closeBlockquote (closeLists st))" by simp
  ultimately show ?thesis
    by (auto simp: scanInv_def push_def cnt_snoc okFrag_def listTag_def)
qed

lemma scanInv_blockLine:
  assumes r: "\<And>e d. tagSafe (renderMath k e d)" and s: "scanInv st"
  shows "scanInv (blockLine st k t)"
proof -
  note c = scanInv_closeBlockquote [OF scanInv_closeLists [OF s]]
  have blank: "scanInv (flushMathBlock k (flushCodeBlock (closeBlockquote (closeLists st))))"
    by (intro scanInv_flushMathBlock scanInv_flushCodeBlock c r)
  have heading: "scanInv (push (headingFragment k level title) (closeBlockquote (closeLists st)))"
    for level title
    by (intro scanInv_push c tagSafe_headingFragment r)
  have rule: "scanInv (push ''<hr />'' (closeBlockquote (closeLists st)))"
    by (intro scanInv_push c) (simp add: ltFollow_def)
  have p: "scanInv (push (''<p>'' @ parseInline k v @ ''</p>'') x)" if "scanInv x" for x v
    using that by (rule scanInv_push) (rule tagSafe_paragraph [OF r])
  have li: "scanInv (push (''<li>'' @ parseInline k v @ ''</li>'') x)" if "scanInv x" for x v
    using that by (rule scanInv_push) (rule tagSafe_item [OF r])
  have bq: "scanInv ((push ''<blockquote>'' (closeLists st))\<lparr>inBlockquote := True\<rparr>)"
    unfolding scanInv_fields
    by (intro scanInv_push scanInv_closeLists s) (simp add: ltFollow_def)
  note quote1 = p [OF scanInv_closeLists [OF s]]
  note quote2 = p [OF bq]
  note ordered1 = li [OF s]
  note ordered2 = li [OF scanInv_open_ordered [OF s]]
  note bullet2 = li [OF scanInv_open_bullet [OF s]]
  have para: "scanInv (push (''<p>'' @ parseInline k v @ ''</p>'') (closeBlockquote (closeLists st)))"
    for v
    by (intro scanInv_push c tagSafe_paragraph r)
  show ?thesis
    unfolding blockLine_def Let_def
    using blank heading rule quote1 quote2 ordered1 ordered2 bullet2 para
    by (simp split: option.split prod.split)
qed

lemma scanInv_processLine:
  assumes "\<And>e d. tagSafe (renderMath k e d)" and "scanInv st" and "fenceSafe line"
  shows "scanInv (processLine k st line)"
proof (cases "startsWith (trim line) ''```''")
  case True
  then have "CHR ''<'' \<notin> set line" using assms(3) by (simp add: fenceSafe_def)
  then have "scanInv (fenceLine st k (trim line))"
    by (intro scanInv_fenceLine assms)
  then show ?thesis using True by (simp add: processLine_def)
next
  case False
  then show ?thesis
    using assms(2) scanInv_mathFenceLine [OF assms(1,2)] scanInv_mathContentLine [OF assms(1,2)]
      scanInv_blockLine [OF assms(1,2)]
    by (simp add: processLine_def Let_def)
qed

lemma scanInv_foldl:
  assumes "\<And>e d. tagSafe (renderMath k e d)"
  shows "scanInv st \<Longrightarrow> list_all fenceSafe ls \<Longrightarrow> scanInv (foldl (processLine k) st ls)"
proof (induction ls arbitrary: st)
  case Nil
  then show ?case by simp
next
  case (Cons l ls)
  then show ?case by (simp add: scanInv_processLine [OF assms])
qed

lemma scanInv_initial: "scanInv initial"
  by (simp add: scanInv_def initial_def cnt_def)

lemma convertLines_balanced:
  assumes "\<And>e d. tagSafe (renderMath k e d)" and "list_all fenceSafe ls"
  shows "list_all okFrag (convertLines k ls)
    \<and> cnt ''<ul>'' (convertLines k ls) = cnt ''</ul>'' (convertLines k ls)
    \<and> cnt ''<ol>'' (convertLines k ls) = cnt ''</ol>'' (convertLines k ls)"
proof -
  let ?st = "foldl (processLine k) initial ls"
  have "scanInv ?st" by (intro scanInv_foldl assms scanInv_initial)
  then have "scanInv (finish k ?st)"
    unfolding finish_def
    by (intro scanInv_closeBlockquote scanInv_closeLists scanInv_flushMathBlock
        scanInv_flushCodeBlock assms)
  moreover have "\<not> inBullet (finish k ?st)" "\<not> inOrdered (finish k ?st)"
    by (simp_all add: finish_def)
  ultimately show ?thesis by (simp add: convertLines_def scanInv_def)
qed

section \<open>Counting in the joined string\<close>

lemma startsWith_Nil_left [simp]: "startsWith [] t = (t = [])"
  by (auto simp: startsWith_def)

lemma startsWith_append_nl:
  "CHR 0x0A \<notin> set t \<Longrightarrow> startsWith (a @ CHR 0x0A # b) t = startsWith a t"
proof (induction a arbitrary: t)
  case Nil
  then show ?case by (cases t) auto
next
  case (Cons c cs)
  then show ?case by (cases t) auto
qed

lemma countSub_append_nl:
  "t \<noteq> [] \<Longrightarrow> CHR 0x0A \<notin> set t \<Longrightarrow>
   countSub t (a @ CHR 0x0A # b) = countSub t a + countSub t b"
proof (induction a)
  case Nil
  then show ?case by (cases t) auto
next
  case (Cons c cs)
  then show ?case
    using startsWith_append_nl [of t "c # cs" b] by simp
qed

lemma ltFollow_not_list:
  assumes "ltFollow cs"
  shows "\<not> startsWith cs ''ul>''" "\<not> startsWith cs ''ol>''"
    "\<not> startsWith cs ''/ul>''" "\<not> startsWith cs ''/ol>''"
proof -
  obtain d ds where c: "cs = d # ds" using assms by (cases cs) (simp_all add: ltFollow_def)
  have d: "d \<noteq> CHR ''u''" "d \<noteq> CHR ''o''"
    using assms by (auto simp: c ltFollow_def split: if_splits)
  show "\<not> startsWith cs ''ul>''" "\<not> startsWith cs ''ol>''" using d by (simp_all add: c)
  have "\<not> startsWith ds ''ul>'' \<and> \<not> startsWith ds ''ol>''" if "d = CHR ''/''"
  proof (cases ds)
    case Nil
    then show ?thesis by simp
  next
    case (Cons e es)
    then show ?thesis using assms that by (auto simp: c ltFollow_def)
  qed
  then show "\<not> startsWith cs ''/ul>''" "\<not> startsWith cs ''/ol>''" by (auto simp: c)
qed

lemma countSub_tagSafe: "tagSafe f \<Longrightarrow> listTag t \<Longrightarrow> countSub t f = 0"
proof (induction f)
  case Nil
  then show ?case by simp
next
  case (Cons c cs)
  have "\<not> startsWith (c # cs) t"
  proof (cases "c = CHR ''<''")
    case True
    then have "ltFollow cs" using Cons.prems(1) by simp
    from ltFollow_not_list [OF this] show ?thesis
      using Cons.prems(2) by (auto simp: listTag_def)
  next
    case False
    then show ?thesis using Cons.prems(2) by (auto simp: listTag_def)
  qed
  with Cons show ?case by simp
qed

lemma countSub_listTag: "listTag f \<Longrightarrow> listTag t \<Longrightarrow> countSub t f = (if f = t then 1 else 0)"
  unfolding listTag_def by (elim disjE) simp_all

lemma countSub_okFrag: "okFrag f \<Longrightarrow> listTag t \<Longrightarrow> countSub t f = (if f = t then 1 else 0)"
proof (cases "listTag f")
  case True
  assume "listTag t"
  with True show ?thesis by (rule countSub_listTag)
next
  case False
  assume a: "okFrag f" "listTag t"
  then have "tagSafe f" using False by (simp add: okFrag_def)
  then have "countSub t f = 0" using a(2) by (rule countSub_tagSafe)
  moreover have "f \<noteq> t" using False a(2) by auto
  ultimately show ?thesis by simp
qed

lemma listTag_no_nl: "listTag t \<Longrightarrow> t \<noteq> [] \<and> CHR 0x0A \<notin> set t"
  by (auto simp: listTag_def)

lemma countSub_join:
  "list_all okFrag fs \<Longrightarrow> listTag t \<Longrightarrow> countSub t (joinWith ''\<newline>'' fs) = cnt t fs"
proof (induction fs)
  case Nil
  then show ?case by (simp add: cnt_def)
next
  case (Cons x xs)
  have x: "countSub t x = (if x = t then 1 else 0)"
    using Cons.prems by (intro countSub_okFrag) simp_all
  show ?case
  proof (cases xs)
    case Nil
    then show ?thesis using x by (simp add: cnt_def)
  next
    case c: (Cons y ys)
    have j: "joinWith ''\<newline>'' (x # xs) = x @ CHR 0x0A # joinWith ''\<newline>'' xs"
      by (simp add: c)
    have "countSub t (x @ CHR 0x0A # joinWith ''\<newline>'' xs)
          = countSub t x + countSub t (joinWith ''\<newline>'' xs)"
      using listTag_no_nl [OF Cons.prems(2)] by (intro countSub_append_nl) simp_all
    also have "countSub t (joinWith ''\<newline>'' xs) = cnt t xs"
      using Cons by simp
    finally show ?thesis unfolding j by (simp add: x cnt_def)
  qed
qed

lemma bullets_example:
  "convertMarkdown k ''- a\<newline>- b\<newline>\<newline>c'' = ''<ul>\<newline><li>a</li>\<newline><li>b</li>\<newline></ul>\<newline><p>c</p>''"
  by code_simp

lemma tagSafe_katexEcho: "tagSafe (renderMath katexEcho e d)"
proof -
  have \<open>tagSafe (''<span class="katex">'' @ escapeHtml (trim e) @ ''</span>'')\<close>
    by (intro tagSafe_append tagSafe_escapeHtml) (simp_all add: ltFollow_def)
  moreover have \<open>renderMath katexEcho e d =
      (if trim e = [] then [] else ''<span class="katex">'' @ escapeHtml (trim e) @ ''</span>'')\<close>
    by (simp add: renderMath_def try_catch_def katexEcho_def Let_def)
  ultimately show ?thesis by auto
qed

section \<open>The renderer is asked for escaped expressions only\<close>

lemma escaped_escapeHtml: "list_all escapedChar (escapeHtml v)"
proof (induction v)
  case Nil
  then show ?case by simp
next
  case (Cons x xs)
  have "list_all escapedChar (escapeHtml [x])"
    by (simp add: escapeHtml_single escapedChar_def)
  with Cons show ?case by (subst escapeHtml_Cons) simp
qed

lemma escaped_trim: "list_all escapedChar s \<Longrightarrow> list_all escapedChar (trim s)"
  using set_trim [of s] by (auto simp: list_all_iff)

lemma renderMath_cong:
  assumes "\<And>e. list_all escapedChar e \<Longrightarrow> k e False = k' e False" and "list_all escapedChar b"
  shows "renderMath k b False = renderMath k' b False"
  using assms(1) [OF escaped_trim [OF assms(2)]] by (simp add: renderMath_def Let_def)

lemma inlineMathLoop_cong:
  "(\<And>e. list_all escapedChar e \<Longrightarrow> k e False = k' e False) \<Longrightarrow>
   list_all escapedChar s \<Longrightarrow> list_all escapedChar b \<Longrightarrow>
   inlineMathLoop k s r b m = inlineMathLoop k' s r b m"
proof (induction k s r b m rule: inlineMathLoop.induct)
  case (1 k result buffer inMath)
  then show ?case by simp
next
  case (2 k c cs result buffer inMath)
  note p = "2.prems"
  have d: "list_all escapedChar (drop 1 cs)"
    using p(2) by (auto simp: list_all_iff dest: in_set_dropD)
  have r: "renderMath k buffer False = renderMath k' buffer False"
    using p(1,3) by (rule renderMath_cong)
  show ?case
    using "2.IH" p d r by simp
qed

lemma parseInline_cong:
  assumes "\<And>e. list_all escapedChar e \<Longrightarrow> k e False = k' e False"
  shows "parseInline k v = parseInline k' v"
  using inlineMathLoop_cong [of k k' "escapeHtml v" "[]" "[]" False] assms escaped_escapeHtml
  by (simp add: parseInline_def replaceInlineMath_def)


section \<open>Trimming twice\<close>

lemma trimEnd_keeps_head:
  assumes "t \<noteq> []" and "\<not> isSpace (hd t)"
  shows "trimEnd t \<noteq> [] \<and> hd (trimEnd t) = hd t"
proof -
  obtain x xs where t: "t = x # xs" using assms(1) by (cases t) auto
  have "\<exists>zs. dropWhile isSpace (rev xs @ [x]) = zs @ [x]"
    using assms(2) by (auto simp: t dropWhile_append)
  then obtain zs where "dropWhile isSpace (rev xs @ [x]) = zs @ [x]" ..
  then have "trimEnd t = x # rev zs" by (simp add: trimEnd_def t)
  then show ?thesis by (simp add: t)
qed

lemma trim_idem: "trim (trim s) = trim s"
proof (cases "dropWhile isSpace s = []")
  case True
  have "trim s = []" unfolding trim_def trimStart_def trimEnd_def True by simp
  moreover have "trim [] = []" by (simp add: trim_def trimStart_def trimEnd_def)
  ultimately show ?thesis by simp
next
  case False
  let ?t = "dropWhile isSpace s"
  have "\<not> isSpace (hd ?t)" using False by (rule hd_dropWhile)
  with False have h: "trimEnd ?t \<noteq> [] \<and> hd (trimEnd ?t) = hd ?t" by (rule trimEnd_keeps_head)
  then have "\<not> isSpace (hd (trimEnd ?t))" using \<open>\<not> isSpace (hd ?t)\<close> by simp
  then have "dropWhile isSpace (trimEnd ?t) = trimEnd ?t"
    using h by (cases "trimEnd ?t") auto
  then have "trim (trim s) = trimEnd (trimEnd ?t)" by (simp add: trim_def trimStart_def)
  also have "\<dots> = trimEnd ?t" by (simp add: trimEnd_def)
  finally show ?thesis by (simp add: trim_def trimStart_def)
qed

lemma renderMath_trimmed:
  "t \<noteq> [] \<Longrightarrow> trim e = t \<Longrightarrow>
   renderMath k e d =
     (case k t d of Inr html \<Rightarrow> html
      | Inl err \<Rightarrow> ''<span class=\"math-error\">'' @ escapeHtml t @ ''</span>'')"
  by (auto simp: renderMath_def try_catch_def mathError_def Let_def split: sum.splits)

section \<open>One link between inert text\<close>

text \<open>
  In a fragment that is one link between inert text, with inert link text and address, the
  later patterns find nothing to replace: the only underscore of the string is the one of
  \<open>target="_blank"\<close>.
\<close>

lemma lone_link_anchor_intact:
  assumes "list_all inertChar pre" and "list_all inertChar t" and "list_all inertChar u"
    and "list_all inertChar post" and "t \<noteq> []" and "u \<noteq> []"
  shows \<open>parseInline k (pre @ ''['' @ t @ '']('' @ u @ '')'' @ post) =
     escapeHtml pre
     @ ''<a href="'' @ escapeHtml u @ ''" target="_blank" rel="noreferrer">'' @ escapeHtml t @ ''</a>''
     @ escapeHtml post\<close>
proof -
  let ?W = "escapeHtml pre @ ''['' @ escapeHtml t @ '']('' @ escapeHtml u @ '')'' @ escapeHtml post"
  note es = assms(1-4) [THEN inert_escapeHtml]
  have "CHR ''$'' \<notin> set ?W"
    using es [THEN inert_notin, of "CHR ''$''"] by (simp add: inertChar_def)
  then have m: "replaceInlineMath k ?W = ?W" by (rule replaceInlineMath_id)
  have c: "inlineChain ?W = escapeHtml pre @ tmplLink [escapeHtml t, escapeHtml u] @ escapeHtml post"
    using es assms(5,6) by (intro anchor_intact) simp_all
  have p: "parseInline k X = inlineChain (replaceInlineMath k (escapeHtml X))" for X
    by (simp add: parseInline_def)
  show ?thesis
    unfolding p escapeHtml_brackets m c by (simp add: tmplLink_def)
qed

section \<open>A line that is not a list item closes the open lists\<close>

lemma tagSafe_renderMath:
  assumes "\<forall>e d html. k e d = Inr html \<longrightarrow> tagSafe html"
  shows "tagSafe (renderMath k e d)"
proof (cases "trim e = []")
  case True
  then show ?thesis by (simp add: renderMath_def)
next
  case False
  show ?thesis
  proof (cases "k (trim e) d")
    case (Inr html)
    then have "tagSafe html" using assms by blast
    then show ?thesis using False Inr by (simp add: renderMath_def try_catch_def Let_def)
  next
    case (Inl err)
    have \<open>tagSafe (''<span class="math-error">'' @ escapeHtml (trim e) @ ''</span>'')\<close>
      by (intro tagSafe_append tagSafe_escapeHtml) (simp_all add: ltFollow_def)
    then show ?thesis
      using False Inl by (simp add: renderMath_def try_catch_def mathError_def Let_def)
  qed
qed

lemma closeLists_outputs:
  "outputs (closeLists st) =
     outputs st @ (if inBullet st then [''</ul>''] else []) @ (if inOrdered st then [''</ol>''] else [])"
  by (simp add: closeLists_def push_def Let_def)

lemma closeLists_blocks [simp]:
  "inCode (closeLists st) = inCode st" "inMathBlock (closeLists st) = inMathBlock st"
  by (simp_all add: closeLists_def push_def Let_def)

lemma closeBlockquote_blocks [simp]:
  "inCode (closeBlockquote st) = inCode st" "inMathBlock (closeBlockquote st) = inMathBlock st"
  by (simp_all add: closeBlockquote_def push_def)

lemma flushCodeBlock_blocks [simp]:
  "\<not> inCode (flushCodeBlock st)" "inMathBlock (flushCodeBlock st) = inMathBlock st"
  by (simp_all add: flushCodeBlock_def push_def)

lemma flushMathBlock_blocks [simp]:
  "inCode (flushMathBlock k st) = inCode st" "\<not> inMathBlock (flushMathBlock k st)"
  by (simp_all add: flushMathBlock_def push_def Let_def)

lemma prefix_push: "prefix p (outputs st) \<Longrightarrow> prefix p (outputs (push f st))"
  by (simp add: push_def prefix_def) auto

lemma prefix_closeBlockquote: "prefix p (outputs st) \<Longrightarrow> prefix p (outputs (closeBlockquote st))"
  by (simp add: closeBlockquote_def prefix_push)

lemma prefix_flushCodeBlock: "prefix p (outputs st) \<Longrightarrow> prefix p (outputs (flushCodeBlock st))"
  using prefix_push [of p st] by (simp add: flushCodeBlock_def)

lemma prefix_flushMathBlock: "prefix p (outputs st) \<Longrightarrow> prefix p (outputs (flushMathBlock k st))"
  using prefix_push [of p st] by (simp add: flushMathBlock_def Let_def)

lemma fenceLine_closes:
  assumes "\<not> inCode st"
  shows "prefix (outputs (closeLists st)) (outputs (fenceLine st k t))
    \<and> \<not> inBullet (fenceLine st k t) \<and> \<not> inOrdered (fenceLine st k t)"
  using assms
  by (simp add: fenceLine_def prefix_flushMathBlock prefix_closeBlockquote)

lemma mathFenceLine_closes:
  "prefix (outputs (closeLists st)) (outputs (mathFenceLine st k t))
    \<and> \<not> inBullet (mathFenceLine st k t) \<and> \<not> inOrdered (mathFenceLine st k t)"
proof -
  let ?st1 = "flushCodeBlock (closeBlockquote (closeLists st))"
  have p: "prefix (outputs (closeLists st)) (outputs ?st1)"
    by (intro prefix_flushCodeBlock prefix_closeBlockquote) simp
  have q: "prefix (outputs (closeLists st)) (outputs (flushMathBlock k (?st1\<lparr>mathBuffer := m\<rparr>)))" for m
    using p by (intro prefix_flushMathBlock) simp
  have q': "prefix (outputs (closeLists st)) (outputs (flushMathBlock k ?st1))"
    using p by (intro prefix_flushMathBlock) simp
  have r: "prefix (outputs (closeLists st)) (outputs (push f ?st1))" for f
    using p by (rule prefix_push)
  show ?thesis
    unfolding mathFenceLine_def Let_def using p q q' r by simp
qed

lemma blockLine_closes:
  assumes "\<not> listItemLine t"
  shows "prefix (outputs (closeLists st)) (outputs (blockLine st k t))
    \<and> \<not> inBullet (blockLine st k t) \<and> \<not> inOrdered (blockLine st k t)"
proof -
  let ?c = "closeBlockquote (closeLists st)"
  have p: "prefix (outputs (closeLists st)) (outputs ?c)"
    by (intro prefix_closeBlockquote) simp
  have blank: "prefix (outputs (closeLists st)) (outputs (flushMathBlock k (flushCodeBlock ?c)))"
    by (intro prefix_flushMathBlock prefix_flushCodeBlock p)
  have pu: "prefix (outputs (closeLists st)) (outputs (push f ?c))" for f
    using p by (rule prefix_push)
  have q1: "prefix (outputs (closeLists st)) (outputs (push f (closeLists st)))" for f
    by (intro prefix_push) simp
  have q2: "prefix (outputs (closeLists st))
      (outputs (push f ((push g (closeLists st))\<lparr>inBlockquote := True\<rparr>)))" for f g
    by (intro prefix_push) (simp add: push_def)
  show ?thesis
    using assms blank pu q1 q2
    unfolding blockLine_def Let_def listItemLine_def
    by (auto split: option.split prod.split)
qed

lemma nonlist_line_closes:
  assumes "\<not> inCode st" and "\<not> inMathBlock st" and "\<not> listItemLine (trim line)"
  shows "prefix (outputs st @ (if inBullet st then [''</ul>''] else [])
                 @ (if inOrdered st then [''</ol>''] else []))
           (outputs (processLine k st line))
    \<and> \<not> inBullet (processLine k st line) \<and> \<not> inOrdered (processLine k st line)"
  using assms fenceLine_closes [OF assms(1), of k "trim line"] mathFenceLine_closes [of st k "trim line"]
    blockLine_closes [OF assms(3), of st k]
  unfolding closeLists_outputs [symmetric]
  by (simp add: processLine_def Let_def)

section \<open>No list is open inside a code block or a math block\<close>

lemma block_no_list_step:
  assumes "inCode st \<or> inMathBlock st \<longrightarrow> \<not> inBullet st \<and> \<not> inOrdered st"
  shows "inCode (processLine k st line) \<or> inMathBlock (processLine k st line) \<longrightarrow>
         \<not> inBullet (processLine k st line) \<and> \<not> inOrdered (processLine k st line)"
proof (cases "inCode st \<or> inMathBlock st")
  case False
  show ?thesis
  proof (cases "listItemLine (trim line)")
    case l: False
    show ?thesis using nonlist_line_closes [of st line k] False l by simp
  next
    case True
    have "\<not> inCode (blockLine st k (trim line)) \<and> \<not> inMathBlock (blockLine st k (trim line))"
      using False unfolding blockLine_def Let_def
      by (auto split: option.split prod.split)
    then show ?thesis
      using False fenceLine_closes [of st k "trim line"] mathFenceLine_closes [of st k "trim line"]
      by (simp add: processLine_def Let_def)
  qed
next
  case True
  then have c: "\<not> inBullet st" "\<not> inOrdered st" using assms by auto
  have f: "\<not> inBullet (fenceLine st k t) \<and> \<not> inOrdered (fenceLine st k t)" for t
    using c by (simp add: fenceLine_def)
  have m: "\<not> inBullet (mathContentLine st k line t) \<and> \<not> inOrdered (mathContentLine st k line t)" for t
    using c by (simp add: mathContentLine_def Let_def)
  show ?thesis
    using c f m mathFenceLine_closes [of st k "trim line"] True
    by (auto simp: processLine_def Let_def)
qed

lemma block_no_list:
  "inCode st \<or> inMathBlock st \<longrightarrow> \<not> inBullet st \<and> \<not> inOrdered st \<Longrightarrow>
   inCode (foldl (processLine k) st ls) \<or> inMathBlock (foldl (processLine k) st ls) \<longrightarrow>
     \<not> inBullet (foldl (processLine k) st ls) \<and> \<not> inOrdered (foldl (processLine k) st ls)"
proof (induction ls arbitrary: st)
  case Nil
  then show ?case by simp
next
  case (Cons l ls)
  show ?case using Cons.IH [OF block_no_list_step [OF Cons.prems, of k l]] by simp
qed

lemma list_then_paragraph_example:
  "convertMarkdown k ''- a\<newline>c'' = ''<ul>\<newline><li>a</li>\<newline></ul>\<newline><p>c</p>''"
  by code_simp

chapter \<open>Properties of the renderer\<close>

section \<open>Fenced code blocks\<close>

text \<open>
  C2. While a fenced code block is open, every line that is not a fence is appended to the
  code buffer as it is, whatever it looks like, and nothing else of the state changes; the
  flush then emits the buffer joined by line feeds and HTML-escaped. A document that is an
  opening fence, such lines and a closing fence becomes one fragment:
  the lines joined by line feeds and HTML-escaped, between the \<open>pre\<close> and \<open>code\<close> tags, with
  no inline transformation. The document of the claim gives \<open>**not bold**\<close> inside
  \<open><code>\<close> and no \<open><strong>\<close>.
\<close>

theorem code_block_lines_verbatim:
  assumes "inCode st"
    and "list_all (\<lambda>l. \<not> startsWith (trim l) ''```'') ls"
    and "startsWith (trim fence) ''```''"
    and "startsWith (trim closing) ''```''"
  shows \<open>foldl (processLine k) st ls = st\<lparr>codeBuffer := codeBuffer st @ ls\<rparr>
    \<and> outputs (flushCodeBlock (foldl (processLine k) st ls)) =
        outputs st @
        [''<pre><code''
         @ (if codeLanguage st \<noteq> []
            then '' class="language-'' @ codeLanguage st @ [CHR 0x22] else [])
         @ ''>'' @ escapeHtml (joinWith ''\<newline>'' (codeBuffer st @ ls)) @ ''</code></pre>'']
    \<and> convertLines k (fence # ls @ [closing]) =
        [''<pre><code''
         @ (if trim (drop 3 (trim fence)) \<noteq> []
            then '' class="language-'' @ trim (drop 3 (trim fence)) @ [CHR 0x22] else [])
         @ ''>'' @ escapeHtml (joinWith ''\<newline>'' ls) @ ''</code></pre>'']
    \<and> convertMarkdown k ''```\<newline>**not bold**\<newline>```'' = ''<pre><code>**not bold**</code></pre>''
    \<and> strIncludes (convertMarkdown k ''```\<newline>**not bold**\<newline>```'') ''<code>**not bold**</code>''
    \<and> \<not> strIncludes (convertMarkdown k ''```\<newline>**not bold**\<newline>```'') ''<strong>''\<close>
proof -
  have a: "foldl (processLine k) st ls = st\<lparr>codeBuffer := codeBuffer st @ ls\<rparr>"
    using assms(1,2) by (rule foldl_inCode)
  have b: "convertLines k (fence # ls @ [closing]) = [codeFragment (trim (drop 3 (trim fence))) ls]"
    using assms(3,4,2) by (rule fenced_block)
  have c: "strIncludes ''<pre><code>**not bold**</code></pre>'' ''<code>**not bold**</code>''"
    by code_simp
  have d: "\<not> strIncludes ''<pre><code>**not bold**</code></pre>'' ''<strong>''"
    by code_simp
  have e: "outputs (flushCodeBlock (st\<lparr>codeBuffer := codeBuffer st @ ls\<rparr>)) =
      outputs st @ [codeFragment (codeLanguage st) (codeBuffer st @ ls)]"
    using assms(1) by (simp add: flushCodeBlock_def push_def)
  show ?thesis
    using a b c d e by (simp add: not_bold_example codeFragment_def)
qed

theorem code_block_lines_verbatim_witness:
  \<open>inCode (initial\<lparr>inCode := True\<rparr>)
   \<and> list_all (\<lambda>l. \<not> startsWith (trim l) ''```'') [''# title'', ''- item'', ''$$'', ''> **q**'']
   \<and> startsWith (trim ''```js'') ''```''
   \<and> startsWith (trim '' ```'') ''```''
   \<and> convertLines katexEcho (''```js'' # [''# title'', ''- item'', ''$$'', ''> **q**''] @ ['' ```''])
       = [''<pre><code class="language-js"># title\<newline>- item\<newline>$$\<newline>&gt; **q**</code></pre>'']\<close>
proof -
  have h1: "inCode (initial\<lparr>inCode := True\<rparr>)" by simp
  have h2: "list_all (\<lambda>l. \<not> startsWith (trim l) ''```'') [''# title'', ''- item'', ''$$'', ''> **q**'']"
    by code_simp
  have h3: "startsWith (trim ''```js'') ''```''" by code_simp
  have h4: "startsWith (trim '' ```'') ''```''" by code_simp
  have r: \<open>[''<pre><code''
         @ (if trim (drop 3 (trim ''```js'')) \<noteq> []
            then '' class="language-'' @ trim (drop 3 (trim ''```js'')) @ [CHR 0x22] else [])
         @ ''>'' @ escapeHtml (joinWith ''\<newline>'' [''# title'', ''- item'', ''$$'', ''> **q**'']) @ ''</code></pre>'']
       = [''<pre><code class="language-js"># title\<newline>- item\<newline>$$\<newline>&gt; **q**</code></pre>'']\<close>
    by code_simp
  have c: \<open>convertLines katexEcho (''```js'' # [''# title'', ''- item'', ''$$'', ''> **q**''] @ ['' ```''])
       = [''<pre><code class="language-js"># title\<newline>- item\<newline>$$\<newline>&gt; **q**</code></pre>'']\<close>
    using code_block_lines_verbatim [OF h1 h2 h3 h4, THEN conjunct2, THEN conjunct2,
        THEN conjunct1, of katexEcho]
    unfolding r .
  show ?thesis using h1 h2 h3 h4 c by (intro conjI)
qed

section \<open>End of input\<close>



section \<open>Empty document\<close>

text \<open>C9. The empty document is rendered as the empty string.\<close>

theorem empty_document: "convertMarkdown k [] = []"
  by code_simp

section \<open>The math bridge\<close>

lemma failing_renderer_example:
  \<open>convertMarkdown katexThrows ''x $a+b$ y'' = ''<p>x <span class="math-error">a+b</span> y</p>''\<close>
  by code_simp

text \<open>
  C1, as the code has it. \<open>renderMath\<close> always returns a string: the empty string when the
  expression is white space only (the renderer is not called then), the renderer's HTML
  when it returns, and when it throws the error marker span around the HTML-escaped
  \<^emph>\<open>trimmed\<close> expression. With a renderer that throws on everything, a document with
  inline math is still rendered, the marker standing where the math would.
\<close>

theorem renderMath_never_raises:
  \<open>(trim e = [] \<longrightarrow> renderMath k e d = [])
   \<and> (\<forall>html. trim e \<noteq> [] \<and> k (trim e) d = Inr html \<longrightarrow> renderMath k e d = html)
   \<and> (\<forall>err. trim e \<noteq> [] \<and> k (trim e) d = Inl err \<longrightarrow>
        renderMath k e d = ''<span class="math-error">'' @ escapeHtml (trim e) @ ''</span>'')
   \<and> convertMarkdown katexThrows ''x $a+b$ y''
       = ''<p>x <span class="math-error">a+b</span> y</p>''\<close>
proof (intro conjI allI impI)
  assume "trim e = []"
  then show "renderMath k e d = []" by (simp add: renderMath_def)
next
  fix html
  assume "trim e \<noteq> [] \<and> k (trim e) d = Inr html"
  then show "renderMath k e d = html" by (simp add: renderMath_def try_catch_def)
next
  fix err
  assume "trim e \<noteq> [] \<and> k (trim e) d = Inl err"
  then show \<open>renderMath k e d = ''<span class="math-error">'' @ escapeHtml (trim e) @ ''</span>''\<close>
    by (simp add: renderMath_def try_catch_def mathError_def)
next
  show \<open>convertMarkdown katexThrows ''x $a+b$ y''
       = ''<p>x <span class="math-error">a+b</span> y</p>''\<close>
    by (rule failing_renderer_example)
qed

theorem renderMath_never_raises_witness:
  \<open>trim ''   '' = []
   \<and> renderMath katexThrows ''   '' True = []
   \<and> trim '' x^2 '' \<noteq> []
   \<and> katexEcho (trim '' x^2 '') True = Inr ''<span class="katex">x^2</span>''
   \<and> renderMath katexEcho '' x^2 '' True = ''<span class="katex">x^2</span>''
   \<and> trim '' a<b '' \<noteq> []
   \<and> katexThrows (trim '' a<b '') False = Inl (KatexError ''a<b'')
   \<and> renderMath katexThrows '' a<b '' False = ''<span class="math-error">a&lt;b</span>''\<close>
proof -
  have t1: "trim ''   '' = []" by code_simp
  have t2: "trim '' x^2 '' = ''x^2''" by code_simp
  have t3: "trim '' a<b '' = ''a<b''" by code_simp
  have k2: \<open>katexEcho ''x^2'' True = Inr ''<span class="katex">x^2</span>''\<close> by code_simp
  have k3: "katexThrows ''a<b'' False = Inl (KatexError ''a<b'')" by (simp add: katexThrows_def)
  have e3: "escapeHtml ''a<b'' = ''a&lt;b''" by code_simp
  show ?thesis
    using renderMath_never_raises [of "''   ''" katexThrows True]
      renderMath_never_raises [of "'' x^2 ''" katexEcho True]
      renderMath_never_raises [of "'' a<b ''" katexThrows False]
    by (simp add: t1 t2 t3 k2 k3 e3)
qed

text \<open>
  The marker does not hold the escaped expression as it was passed: the white space
  around it is gone.
\<close>

theorem renderMath_marker_counterexample:
  \<open>renderMath katexThrows '' x'' False = ''<span class="math-error">x</span>''
   \<and> \<not> strIncludes (renderMath katexThrows '' x'' False) (escapeHtml '' x'')\<close>
  by code_simp

section \<open>A closing line that starts with the math marker\<close>

text \<open>
  C6. In an open math block the line \<open>$$b$$\<close> closes the block, and only the last \<open>$\<close> of
  the closing marker is cut off: the expression that reaches the renderer is \<open>a\<close>, a line
  feed and \<open>b$\<close>.
\<close>

theorem closing_marker_leaks_dollar:
  \<open>convertMarkdown k ''$$\<newline>a\<newline>$$b$$'' = renderMath k ''a\<newline>b$'' True
   \<and> convertMarkdown katexEcho ''$$\<newline>a\<newline>$$b$$'' = ''<span class="katex">a\<newline>b$</span>''\<close>
  by code_simp

section \<open>Plain single-line documents\<close>

text \<open>
  C8, as the code has it. A single line that is not empty, has no white space at its ends
  and holds plain code units only is rendered as one paragraph around the line itself.
  The fragments are joined by line feeds, so nothing follows the closing tag.
\<close>

theorem plain_line_paragraph:
  assumes "line \<noteq> []" and "list_all plainChar line" and "trim line = line"
  shows "convertMarkdown k line = ''<p>'' @ line @ ''</p>''"
proof -
  note n = plain_notin [OF assms(2)]
  have "CHR 0x0D \<notin> set line" by (rule n) (simp add: plainChar_def)
  then have a: "normalizeNewlines line = line" by (rule normalizeNewlines_id)
  have "CHR 0x0A \<notin> set line" by (rule n) (simp add: plainChar_def)
  then have b: "splitNl line = [line]" by (rule splitNl_single)
  have c: "processLine k initial line = push (''<p>'' @ line @ ''</p>'') (closeBlockquote (closeLists initial))"
    by (rule processLine_plain) (use assms in \<open>simp_all add: initial_def\<close>)
  have "foldl (processLine k) initial [line]
        = push (''<p>'' @ line @ ''</p>'') (closeBlockquote (closeLists initial))"
    by (simp add: c)
  then have d: "convertLines k [line] = [''<p>'' @ line @ ''</p>'']"
    by (simp only: convertLines_def)
      (simp add: finish_def initial_def push_def closeBlockquote_def
        closeLists_def flushMathBlock_def flushCodeBlock_def)
  show ?thesis by (simp add: convertMarkdown_def a b d)
qed

theorem plain_line_paragraph_witness:
  "''hello world'' \<noteq> [] \<and> list_all plainChar ''hello world''
   \<and> trim ''hello world'' = ''hello world''
   \<and> convertMarkdown katexEcho ''hello world'' = ''<p>hello world</p>''"
proof -
  have h1: "''hello world'' \<noteq> []" by simp
  have h2: "list_all plainChar ''hello world''" by (simp add: plainChar_def)
  have h3: "trim ''hello world'' = ''hello world''" by code_simp
  have "convertMarkdown katexEcho ''hello world'' = ''<p>'' @ ''hello world'' @ ''</p>''"
    using h1 h2 h3 by (rule plain_line_paragraph)
  then show ?thesis using h2 h3 by simp
qed

text \<open>
  The line \<open>hello\<close> is rendered without a line feed behind the paragraph, and white space
  at the ends of a line is not part of the paragraph.
\<close>

theorem plain_line_newline_counterexample:
  "list_all plainChar ''hello''
   \<and> convertMarkdown katexEcho ''hello'' = ''<p>hello</p>''
   \<and> convertMarkdown katexEcho ''hello'' \<noteq> ''<p>'' @ ''hello'' @ ''</p>'' @ ''\<newline>''
   \<and> list_all plainChar '' hello''
   \<and> convertMarkdown katexEcho '' hello'' = ''<p>hello</p>''
   \<and> convertMarkdown katexEcho '' hello'' \<noteq> ''<p>'' @ '' hello'' @ ''</p>''"
proof -
  have a: "list_all plainChar ''hello''" "list_all plainChar '' hello''"
    by (simp_all add: plainChar_def)
  have b: "convertMarkdown katexEcho ''hello'' = ''<p>hello</p>''" by code_simp
  have c: "convertMarkdown katexEcho '' hello'' = ''<p>hello</p>''" by code_simp
  show ?thesis using a by (simp add: b c)
qed

section \<open>Headings of level one to six\<close>




section \<open>What reaches the math renderer\<close>

text \<open>
  C10, as the code has it. Inline: when the loop of \<open>replaceInlineMath\<close> stands outside math
  before \<open>$u$\<close> in the escaped text, where \<open>u\<close> has no \<open>$\<close>, does not end with a backslash
  and is not white space only, the renderer is called with the HTML-escaped \<open>u\<close>, trimmed, in
  inline mode; what it returns (or, when it throws, the error span around the expression)
  is appended to the result, and the loop goes on behind the closing \<open>$\<close>. Whatever the
  fragment, \<open>parseInline\<close> asks the renderer for inline renderings of escaped text only: two
  renderers that agree on the expressions without \<open><\<close>, \<open>>\<close> and quotes give the same
  result. Block: for a document that is \<open>$$\<close>, content lines and \<open>$$\<close>, the renderer is
  called with the content lines, joined by line feeds and trimmed but not escaped, in
  display mode, and what it returns is the one fragment of the document; when the trimmed
  content is empty the renderer is not called and there is no fragment.
\<close>

theorem inline_math_escaped_block_math_raw:
  "(CHR ''$'' \<notin> set u \<and> u \<noteq> [] \<and> last u \<noteq> CHR 0x5C \<and> \<not> list_all isSpace u \<longrightarrow>
      inlineMathLoop k (escapeHtml (''$'' @ u @ ''$'' @ post)) r b False
        = inlineMathLoop k (escapeHtml post)
            (r @ (case k (trim (escapeHtml u)) False of
                    Inr html \<Rightarrow> html
                  | Inl err \<Rightarrow> ''<span class=\"math-error\">''
                               @ escapeHtml (trim (escapeHtml u)) @ ''</span>''))
            [] False
      \<and> parseInline k (''$'' @ u @ ''$'')
          = inlineChain (case k (trim (escapeHtml u)) False of
                           Inr html \<Rightarrow> html
                         | Inl err \<Rightarrow> ''<span class=\"math-error\">''
                                      @ escapeHtml (trim (escapeHtml u)) @ ''</span>''))
   \<and> ((\<forall>e. list_all escapedChar e \<longrightarrow> k e False = k' e False) \<longrightarrow>
        parseInline k v = parseInline k' v)
   \<and> (list_all mathContent ls \<longrightarrow>
        convertLines k (''$$'' # ls @ [''$$'']) =
          (if trim (joinWith ''\<newline>'' ls) = [] then []
           else [case k (trim (joinWith ''\<newline>'' ls)) True of
                   Inr html \<Rightarrow> html
                 | Inl err \<Rightarrow> ''<span class=\"math-error\">''
                              @ escapeHtml (trim (joinWith ''\<newline>'' ls)) @ ''</span>'']))"
proof (intro conjI impI)
  assume h: "CHR ''$'' \<notin> set u \<and> u \<noteq> [] \<and> last u \<noteq> CHR 0x5C \<and> \<not> list_all isSpace u"
  have ne: "trim (escapeHtml u) \<noteq> []"
    using h escapeHtml_not_blank [of u] by (simp add: trim_eq_Nil)
  note rm = renderMath_trimmed [OF ne refl, of k False]
  show "inlineMathLoop k (escapeHtml (''$'' @ u @ ''$'' @ post)) r b False
        = inlineMathLoop k (escapeHtml post)
            (r @ (case k (trim (escapeHtml u)) False of
                    Inr html \<Rightarrow> html
                  | Inl err \<Rightarrow> ''<span class=\"math-error\">''
                               @ escapeHtml (trim (escapeHtml u)) @ ''</span>''))
            [] False"
    using escaped_span [of u k post r b] h unfolding rm by blast
  show "parseInline k (''$'' @ u @ ''$'')
          = inlineChain (case k (trim (escapeHtml u)) False of
                           Inr html \<Rightarrow> html
                         | Inl err \<Rightarrow> ''<span class=\"math-error\">''
                                      @ escapeHtml (trim (escapeHtml u)) @ ''</span>'')"
    using parseInline_span [of u k] h unfolding rm by blast
next
  assume "\<forall>e. list_all escapedChar e \<longrightarrow> k e False = k' e False"
  then show "parseInline k v = parseInline k' v" using parseInline_cong [of k k' v] by blast
next
  assume m: "list_all mathContent ls"
  show "convertLines k (''$$'' # ls @ [''$$'']) =
          (if trim (joinWith ''\<newline>'' ls) = [] then []
           else [case k (trim (joinWith ''\<newline>'' ls)) True of
                   Inr html \<Rightarrow> html
                 | Inl err \<Rightarrow> ''<span class=\"math-error\">''
                              @ escapeHtml (trim (joinWith ''\<newline>'' ls)) @ ''</span>''])"
  proof (cases "trim (joinWith ''\<newline>'' ls) = []")
    case True
    then show ?thesis using math_block [of ls k] m by simp
  next
    case False
    note rm = renderMath_trimmed [OF False trim_idem, of k True]
    show ?thesis using math_block [of ls k] m False unfolding rm by simp
  qed
qed

theorem inline_math_escaped_block_math_raw_witness:
  "CHR ''$'' \<notin> set ''a<b'' \<and> ''a<b'' \<noteq> [] \<and> last ''a<b'' \<noteq> CHR 0x5C \<and> \<not> list_all isSpace ''a<b''
   \<and> parseInline katexShow ''$a<b$'' = ''<math display=\"inline\">a&lt;b</math>''
   \<and> parseInline katexThrows ''$a<b$'' = ''<span class=\"math-error\">a&amp;lt;b</span>''
   \<and> katexEscapedOnly ''a<b'' False \<noteq> katexEcho ''a<b'' False
   \<and> parseInline katexEcho ''x $a<b$ y'' = parseInline katexEscapedOnly ''x $a<b$ y''
   \<and> list_all mathContent [''a<b'', '' c '']
   \<and> convertLines katexShow [''$$'', ''a<b'', '' c '', ''$$'']
       = [''<math display=\"block\">a<b\<newline> c</math>'']"
proof -
  have h: "CHR ''$'' \<notin> set ''a<b'' \<and> ''a<b'' \<noteq> [] \<and> last ''a<b'' \<noteq> CHR 0x5C \<and> \<not> list_all isSpace ''a<b''"
    by (simp add: isSpace_def)
  have g: "\<forall>e. list_all escapedChar e \<longrightarrow> katexEcho e False = katexEscapedOnly e False"
    by (simp add: katexEscapedOnly_def)
  have n: "katexEscapedOnly ''a<b'' False \<noteq> katexEcho ''a<b'' False"
    by (simp add: katexEscapedOnly_def katexEcho_def katexThrows_def escapedChar_def)
  have m: "list_all mathContent [''a<b'', '' c '']" by code_simp
  have e1: "''$'' @ ''a<b'' @ ''$'' = ''$a<b$''" by simp
  have e2: "inlineChain (case katexShow (trim (escapeHtml ''a<b'')) False of
                           Inr html \<Rightarrow> html
                         | Inl err \<Rightarrow> ''<span class=\"math-error\">''
                                      @ escapeHtml (trim (escapeHtml ''a<b'')) @ ''</span>'')
            = ''<math display=\"inline\">a&lt;b</math>''" by code_simp
  have e3: "inlineChain (case katexThrows (trim (escapeHtml ''a<b'')) False of
                           Inr html \<Rightarrow> html
                         | Inl err \<Rightarrow> ''<span class=\"math-error\">''
                                      @ escapeHtml (trim (escapeHtml ''a<b'')) @ ''</span>'')
            = ''<span class=\"math-error\">a&amp;lt;b</span>''" by code_simp
  have e4: "(if trim (joinWith ''\<newline>'' [''a<b'', '' c '']) = [] then []
           else [case katexShow (trim (joinWith ''\<newline>'' [''a<b'', '' c ''])) True of
                   Inr html \<Rightarrow> html
                 | Inl err \<Rightarrow> ''<span class=\"math-error\">''
                              @ escapeHtml (trim (joinWith ''\<newline>'' [''a<b'', '' c ''])) @ ''</span>''])
            = [''<math display=\"block\">a<b\<newline> c</math>'']" by code_simp
  have e5: "''$$'' # [''a<b'', '' c ''] @ [''$$''] = [''$$'', ''a<b'', '' c '', ''$$'']" by simp
  note w = inline_math_escaped_block_math_raw
    [of "''a<b''" katexShow "[]" "[]" "[]" katexShow "[]" "[''a<b'', '' c '']"]
  note w2 = inline_math_escaped_block_math_raw
    [of "''a<b''" katexThrows "[]" "[]" "[]" katexThrows "[]" "[]"]
  note w3 = inline_math_escaped_block_math_raw
    [of "[]" katexEcho "[]" "[]" "[]" katexEscapedOnly "''x $a<b$ y''" "[]"]
  have c1: "parseInline katexShow ''$a<b$'' = ''<math display=\"inline\">a&lt;b</math>''"
    using w [THEN conjunct1, rule_format, OF h, THEN conjunct2] unfolding e1 e2 .
  have c1': "parseInline katexThrows ''$a<b$'' = ''<span class=\"math-error\">a&amp;lt;b</span>''"
    using w2 [THEN conjunct1, rule_format, OF h, THEN conjunct2] unfolding e1 e3 .
  have c2: "parseInline katexEcho ''x $a<b$ y'' = parseInline katexEscapedOnly ''x $a<b$ y''"
    using w3 [THEN conjunct2, THEN conjunct1, THEN mp, OF g] .
  have c3: "convertLines katexShow [''$$'', ''a<b'', '' c '', ''$$'']
       = [''<math display=\"block\">a<b\<newline> c</math>'']"
    using w [THEN conjunct2, THEN conjunct2, rule_format, OF m] unfolding e4 e5 .
  show ?thesis using h n m c1 c1' c2 c3 by blast
qed

text \<open>
  The claim itself does not hold for a span with an escaped dollar sign in it: in \<open>$a\$b$\<close>
  the backslash and the dollar sign are taken out of the expression, and the dollar sign is
  put into the result in front of the rendering. The renderer is called with \<open>ab\<close>, which is
  not the escaped form of the text between the dollar signs.
\<close>

theorem escaped_dollar_in_span_counterexample:
  "escapeHtml (''a'' @ [CHR 0x5C] @ ''$b'') = ''a'' @ [CHR 0x5C] @ ''$b''
   \<and> parseInline katexShow (''$a'' @ [CHR 0x5C] @ ''$b$'') = ''$<math display=\"inline\">ab</math>''
   \<and> \<not> strIncludes (parseInline katexShow (''$a'' @ [CHR 0x5C] @ ''$b$''))
          (''a'' @ [CHR 0x5C] @ ''$b'')
   \<and> convertMarkdown katexShow (''$a'' @ [CHR 0x5C] @ ''$b$'')
       = ''<p>$<math display=\"inline\">ab</math></p>''"
  by code_simp

section \<open>A link and the later patterns\<close>

text \<open>
  C7. The anchor that the link replacement writes is not in the result of \<open>parseInline\<close>
  when the fragment has a second link, or an underscore anywhere behind the link. After the
  link replacement the anchor is whole. The underscore pattern, three replacements later,
  runs over the whole string, the anchor included: it matches from the underscore of the
  anchor's own \<open>target="_blank"\<close> to the next underscore, which is the one of the second
  anchor or the one of the text behind the link, and writes \<open><em>\<close> into the attribute.
  This holds for every renderer, there is no math in these fragments.
\<close>

theorem later_pattern_breaks_anchor:
  \<open>jsReplace reLink tmplLink None
       (jsReplace reImage tmplImage None (replaceInlineMath k (escapeHtml ''[a](b) and [c](d)'')))
     = ''<a href="b" target="_blank" rel="noreferrer">a</a> and <a href="d" target="_blank" rel="noreferrer">c</a>''
   \<and> parseInline k ''[a](b) and [c](d)''
     = ''<a href="b" target="<em>blank" rel="noreferrer">a</a> and <a href="d" target="</em>blank" rel="noreferrer">c</a>''
   \<and> \<not> strIncludes (parseInline k ''[a](b) and [c](d)'') ''target="_blank"''
   \<and> jsReplace reLink tmplLink None
       (jsReplace reImage tmplImage None (replaceInlineMath k (escapeHtml ''[a](b) in my_file'')))
     = ''<a href="b" target="_blank" rel="noreferrer">a</a> in my_file''
   \<and> parseInline k ''[a](b) in my_file''
     = ''<a href="b" target="<em>blank" rel="noreferrer">a</a> in my</em>file''
   \<and> \<not> strIncludes (parseInline k ''[a](b) in my_file'') ''target="_blank"''
   \<and> parseInline k ''[a](b)'' = ''<a href="b" target="_blank" rel="noreferrer">a</a>''\<close>
  by code_simp

section \<open>List tags\<close>

text \<open>
  C3, as the code has it. Counts: when every HTML text that the math renderer returns is
  free of list tag beginnings (no \<open><\<close> in it is followed by \<open>u\<close>, \<open>o\<close>, \<open>/u\<close> or \<open>/o\<close>, and
  it does not end with \<open><\<close> or \<open></\<close>), and no code fence of the document has a \<open><\<close> in its
  line, the result holds as many \<open><ul>\<close> as \<open></ul>\<close> and as many \<open><ol>\<close> as \<open></ol>\<close>.
  Closing: outside a code block and a math block, a line that is not a list item (a fence,
  a math marker, a blank line, a heading, a rule, a quote or a paragraph) first writes
  \<open></ul>\<close> and \<open></ol>\<close> for the lists that are open, directly behind what was written before
  and in front of whatever the line itself writes, and leaves no list open. Inside a code
  block or a math block of a document no list is open. At the end of input the closing tags
  of the open lists are written behind the flushed code and math and no list stays open.
  In the document of the claim, and for a paragraph that follows a list item directly, the
  list is closed before the paragraph.
\<close>

theorem list_tags_balanced:
  "((\<forall>e d html. k e d = Inr html \<longrightarrow> tagSafe html)
      \<and> list_all fenceSafe (splitNl (normalizeNewlines raw)) \<longrightarrow>
        countSub ''<ul>'' (convertMarkdown k raw) = countSub ''</ul>'' (convertMarkdown k raw)
        \<and> countSub ''<ol>'' (convertMarkdown k raw) = countSub ''</ol>'' (convertMarkdown k raw))
   \<and> (\<not> inCode st \<and> \<not> inMathBlock st \<and> \<not> listItemLine (trim line) \<longrightarrow>
        prefix (outputs st @ (if inBullet st then [''</ul>''] else [])
                @ (if inOrdered st then [''</ol>''] else []))
          (outputs (processLine k st line))
        \<and> \<not> inBullet (processLine k st line) \<and> \<not> inOrdered (processLine k st line))
   \<and> (inCode (foldl (processLine k) initial ls) \<or> inMathBlock (foldl (processLine k) initial ls) \<longrightarrow>
        \<not> inBullet (foldl (processLine k) initial ls)
        \<and> \<not> inOrdered (foldl (processLine k) initial ls))
   \<and> outputs (finish k st) =
        outputs st
        @ (if inCode st then [codeFragment (codeLanguage st) (codeBuffer st)] else [])
        @ (if inMathBlock st \<and> trim (joinWith ''\<newline>'' (mathBuffer st)) \<noteq> []
           then [renderMath k (trim (joinWith ''\<newline>'' (mathBuffer st))) True] else [])
        @ (if inBullet st then [''</ul>''] else [])
        @ (if inOrdered st then [''</ol>''] else [])
        @ (if inBlockquote st then [''</blockquote>''] else [])
   \<and> \<not> inBullet (finish k st) \<and> \<not> inOrdered (finish k st)
   \<and> convertMarkdown k ''- a\<newline>- b\<newline>\<newline>c''
        = ''<ul>\<newline><li>a</li>\<newline><li>b</li>\<newline></ul>\<newline><p>c</p>''
   \<and> convertMarkdown k ''- a\<newline>c'' = ''<ul>\<newline><li>a</li>\<newline></ul>\<newline><p>c</p>''"
proof -
  have counts: "countSub ''<ul>'' (convertMarkdown k raw) = countSub ''</ul>'' (convertMarkdown k raw)
        \<and> countSub ''<ol>'' (convertMarkdown k raw) = countSub ''</ol>'' (convertMarkdown k raw)"
    if h: "(\<forall>e d html. k e d = Inr html \<longrightarrow> tagSafe html)
      \<and> list_all fenceSafe (splitNl (normalizeNewlines raw))"
  proof -
    let ?fs = "convertLines k (splitNl (normalizeNewlines raw))"
    have r: "tagSafe (renderMath k e d)" for e d
      using h by (intro tagSafe_renderMath) blast
    have f: "list_all fenceSafe (splitNl (normalizeNewlines raw))" using h by blast
    note b = convertLines_balanced [OF r f]
    have c: "countSub t (convertMarkdown k raw) = cnt t ?fs" if "listTag t" for t
      using b that by (simp add: convertMarkdown_def countSub_join)
    have "countSub ''<ul>'' (convertMarkdown k raw) = countSub ''</ul>'' (convertMarkdown k raw)"
      using b by (simp add: c listTag_def)
    moreover have "countSub ''<ol>'' (convertMarkdown k raw) = countSub ''</ol>'' (convertMarkdown k raw)"
      using b by (simp add: c listTag_def)
    ultimately show ?thesis by blast
  qed
  have closing: "\<not> inCode st \<and> \<not> inMathBlock st \<and> \<not> listItemLine (trim line) \<longrightarrow>
        prefix (outputs st @ (if inBullet st then [''</ul>''] else [])
                @ (if inOrdered st then [''</ol>''] else []))
          (outputs (processLine k st line))
        \<and> \<not> inBullet (processLine k st line) \<and> \<not> inOrdered (processLine k st line)"
    using nonlist_line_closes [of st line k] by blast
  have block: "inCode (foldl (processLine k) initial ls) \<or> inMathBlock (foldl (processLine k) initial ls) \<longrightarrow>
        \<not> inBullet (foldl (processLine k) initial ls)
        \<and> \<not> inOrdered (foldl (processLine k) initial ls)"
    by (rule block_no_list) (simp add: initial_def)
  have fin: "\<not> inBullet (finish k st) \<and> \<not> inOrdered (finish k st)"
    by (simp add: finish_def)
  show ?thesis
    using counts closing block fin finish_outputs [of k st] bullets_example [of k]
      list_then_paragraph_example [of k]
    by blast
qed

theorem list_tags_balanced_witness:
  \<open>(\<forall>e d. \<exists>html. katexEcho e d = Inr html \<and> tagSafe html)
   \<and> list_all fenceSafe (splitNl (normalizeNewlines
        ''1. x\<newline>- a $m$\<newline>- [b](c)\<newline>```js\<newline><ul>\<newline>```\<newline>+ d''))
   \<and> countSub ''<ul>'' (convertMarkdown katexEcho
        ''1. x\<newline>- a $m$\<newline>- [b](c)\<newline>```js\<newline><ul>\<newline>```\<newline>+ d'') = 2
   \<and> countSub ''</ul>'' (convertMarkdown katexEcho
        ''1. x\<newline>- a $m$\<newline>- [b](c)\<newline>```js\<newline><ul>\<newline>```\<newline>+ d'') = 2
   \<and> countSub ''<ol>'' (convertMarkdown katexEcho
        ''1. x\<newline>- a $m$\<newline>- [b](c)\<newline>```js\<newline><ul>\<newline>```\<newline>+ d'')
     = countSub ''</ol>'' (convertMarkdown katexEcho
        ''1. x\<newline>- a $m$\<newline>- [b](c)\<newline>```js\<newline><ul>\<newline>```\<newline>+ d'')
   \<and> inBullet (processLine katexEcho initial ''- a'')
   \<and> \<not> inCode (processLine katexEcho initial ''- a'')
   \<and> \<not> inMathBlock (processLine katexEcho initial ''- a'')
   \<and> \<not> listItemLine (trim ''c'')
   \<and> prefix [''<ul>'', ''<li>a</li>'', ''</ul>'']
        (outputs (processLine katexEcho (processLine katexEcho initial ''- a'') ''c''))
   \<and> \<not> inBullet (processLine katexEcho (processLine katexEcho initial ''- a'') ''c'')
   \<and> outputs (processLine katexEcho (processLine katexEcho initial ''- a'') ''c'')
       = [''<ul>'', ''<li>a</li>'', ''</ul>'', ''<p>c</p>'']
   \<and> inCode (foldl (processLine katexEcho) initial [''- a'', ''```js''])
   \<and> \<not> inBullet (foldl (processLine katexEcho) initial [''- a'', ''```js''])\<close>
proof -
  let ?raw = "''1. x\<newline>- a $m$\<newline>- [b](c)\<newline>```js\<newline><ul>\<newline>```\<newline>+ d''"
  let ?st = "processLine katexEcho initial ''- a''"
  let ?ls = "[''- a'', ''```js'']"
  have t: \<open>tagSafe (''<span class="katex">'' @ escapeHtml e @ ''</span>'')\<close> for e
    by (intro tagSafe_append tagSafe_escapeHtml) (simp_all add: ltFollow_def)
  have h0: "\<forall>e d. \<exists>html. katexEcho e d = Inr html \<and> tagSafe html"
    using t by (simp add: katexEcho_def)
  have h1: "\<forall>e d html. katexEcho e d = Inr html \<longrightarrow> tagSafe html"
    using t by (auto simp: katexEcho_def)
  have h2: "list_all fenceSafe (splitNl (normalizeNewlines ?raw))" by code_simp
  have v: "countSub ''<ul>'' (convertMarkdown katexEcho ?raw) = 2" by code_simp
  have b: "inBullet ?st" by code_simp
  have h3: "\<not> inCode ?st \<and> \<not> inMathBlock ?st \<and> \<not> listItemLine (trim ''c'')" by code_simp
  have h4: "inCode (foldl (processLine katexEcho) initial ?ls)
            \<or> inMathBlock (foldl (processLine katexEcho) initial ?ls)" by code_simp
  have i: "inCode (foldl (processLine katexEcho) initial ?ls)" by code_simp
  have ev: "outputs ?st @ (if inBullet ?st then [''</ul>''] else [])
            @ (if inOrdered ?st then [''</ol>''] else []) = [''<ul>'', ''<li>a</li>'', ''</ul>'']"
    by code_simp
  have o: "outputs (processLine katexEcho ?st ''c'') = [''<ul>'', ''<li>a</li>'', ''</ul>'', ''<p>c</p>'']"
    by code_simp
  note w = list_tags_balanced [of katexEcho ?raw ?st "''c''" ?ls]
  have c1: "countSub ''<ul>'' (convertMarkdown katexEcho ?raw) = countSub ''</ul>'' (convertMarkdown katexEcho ?raw)
        \<and> countSub ''<ol>'' (convertMarkdown katexEcho ?raw) = countSub ''</ol>'' (convertMarkdown katexEcho ?raw)"
    using w [THEN conjunct1, THEN mp, OF conjI [OF h1 h2]] .
  have c2: "prefix [''<ul>'', ''<li>a</li>'', ''</ul>''] (outputs (processLine katexEcho ?st ''c''))
        \<and> \<not> inBullet (processLine katexEcho ?st ''c'') \<and> \<not> inOrdered (processLine katexEcho ?st ''c'')"
    using w [THEN conjunct2, THEN conjunct1, THEN mp, OF h3] unfolding ev .
  have c3: "\<not> inBullet (foldl (processLine katexEcho) initial ?ls)
        \<and> \<not> inOrdered (foldl (processLine katexEcho) initial ?ls)"
    using w [THEN conjunct2, THEN conjunct2, THEN conjunct1, THEN mp, OF h4] .
  have u: "countSub ''</ul>'' (convertMarkdown katexEcho ?raw) = 2" using c1 v by simp
  show ?thesis
    apply (intro conjI)
    using h0 h2 v u c1 c2 c3 b h3 i o by blast+
qed

text \<open>
  The language tag of a fence is written into the \<open>class\<close> attribute as it is: a fence
  line can put a \<open><ul>\<close> into the result that nothing closes.
\<close>

theorem list_tags_counterexample:
  \<open>convertMarkdown katexEcho ''```"><ul>'' = ''<pre><code class="language-"><ul>"></code></pre>''
   \<and> countSub ''<ul>'' (convertMarkdown katexEcho ''```"><ul>'') = 1
   \<and> countSub ''</ul>'' (convertMarkdown katexEcho ''```"><ul>'') = 0\<close>
  by code_simp

end
